theory Spec2Isabelle
  imports Main "HOL-Library.Word"
begin

section \<open>Data model\<close>

text \<open>
  The development embeds the class \<open>SensitiveInfoExtractor\<close> of
  \<open>sensitive_extractor.py\<close>. File paths, rule names, regex sources and exception
  messages are opaque strings. The text of a file is a Python \<open>str\<close>: a list of
  Unicode code points. File contents on disk are lists of bytes.
\<close>

type_synonym path = string
type_synonym ustring = "nat list"
type_synonym byte = "8 word"

text \<open>
  A compiled pattern is used only through \<open>finditer(line)\<close>, whose matches are read
  only through \<open>group(0)\<close>. A match object is its span \<open>(start, end)\<close>, and
  \<open>group(0)\<close> is the slice \<open>line[start:end]\<close>.
\<close>

type_synonym matcher = "ustring \<Rightarrow> (nat \<times> nat) list"

type_synonym matches = "(ustring \<times> nat) list"
type_synonym file_results = "(string \<times> matches) list"

text \<open>One rule of \<open>patterns.json\<close>; \<open>enabled\<close> is \<open>None\<close> when the key is absent.\<close>

record pattern_info =
  regex :: string
  description :: string
  risk_level :: string
  enabled :: "bool option"

datatype encoding = UTF8 | GBK | GB2312 | UTF16 | Latin1

text \<open>
  What one \<open>try\<close> block around a library call observes: the call returns, raises
  \<open>UnicodeDecodeError\<close>, or raises any other exception (carrying \<open>str(e)\<close>).
\<close>

datatype 'a attempt = Returned 'a | UnicodeDecodeError | OtherException string

text \<open>
  The message stored with an error file: \<open>str(e)\<close> of a caught exception, or the fixed
  text appended after the encoding loop has run out.
\<close>

datatype err_msg = ExnMessage string | NoEncodingWorked

text \<open>A directory as \<open>os.walk\<close> sees it: its file names and its subdirectories.\<close>

datatype dir_tree = Dir_tree "string list" "(string \<times> dir_tree) list"

text \<open>
  The operating system and the Python library, as far as the extractor calls them:
  \<^item> \<open>path_exists\<close>, \<open>path_is_dir\<close>: \<open>Path.exists()\<close>, \<open>Path.is_dir()\<close>;
  \<^item> \<open>dir_tree_of\<close>: the tree that \<open>os.walk\<close> traverses from a directory;
  \<^item> \<open>suffix_lower\<close>: \<open>Path(p).suffix.lower()\<close>;
  \<^item> \<open>guess_type\<close>: the first component of \<open>mimetypes.guess_type\<close>;
  \<^item> \<open>read_bytes\<close>: opening a file and reading its bytes, \<open>Inl\<close> the message of the
    \<open>OSError\<close> raised;
  \<^item> \<open>bytes_decode_ok\<close>: whether \<open>chunk.decode(enc)\<close> returns rather than raising
    \<open>UnicodeDecodeError\<close>;
  \<^item> \<open>text_decode\<close>: decoding a whole file opened in text mode, for the encodings
    other than Latin-1;
  \<^item> \<open>re_compile\<close>: \<open>re.compile(src, re.DOTALL)\<close>, \<open>None\<close> when it raises.
\<close>

record env =
  path_exists :: "path \<Rightarrow> bool"
  path_is_dir :: "path \<Rightarrow> bool"
  dir_tree_of :: "path \<Rightarrow> dir_tree"
  suffix_lower :: "path \<Rightarrow> string"
  guess_type :: "path \<Rightarrow> string option"
  read_bytes :: "path \<Rightarrow> string + byte list"
  bytes_decode_ok :: "encoding \<Rightarrow> byte list \<Rightarrow> bool"
  text_decode :: "encoding \<Rightarrow> byte list \<Rightarrow> ustring attempt"
  re_compile :: "string \<Rightarrow> matcher option"

record stats =
  stat_total_files :: nat
  stat_scanned_files :: nat
  stat_skipped_files :: nat
  stat_error_files :: nat
  stat_sensitive_items :: nat
  stat_start_time :: "nat option"
  stat_end_time :: "nat option"

text \<open>
  The attributes of an extractor object. Python dictionaries keep insertion order and are
  association lists here.
\<close>

record extractor =
  patterns :: "(string \<times> pattern_info) list"
  compiled_patterns :: "(string \<times> matcher) list"
  results :: "(path \<times> file_results) list"
  scanned_files :: "path list"
  skipped_files :: "path list"
  error_files :: "(path \<times> err_msg) list"
  is_scanning :: bool
  scan_cancelled :: bool
  stats :: stats

datatype scan_error = FileNotFoundError | NotADirectoryError

section \<open>Dictionaries and strings\<close>

text \<open>\<open>d[k] = v\<close>: an existing key keeps its position, a new key goes last.\<close>

fun dict_set :: "('k \<times> 'v) list \<Rightarrow> 'k \<Rightarrow> 'v \<Rightarrow> ('k \<times> 'v) list" where
  "dict_set [] k v = [(k, v)]"
| "dict_set ((k', v') # d) k v = (if k' = k then (k, v) # d else (k', v') # dict_set d k v)"

text \<open>\<open>del d[k]\<close>, or rather the dictionary in which the key never was.\<close>

definition dict_del :: "('k \<times> 'v) list \<Rightarrow> 'k \<Rightarrow> ('k \<times> 'v) list" where
  "dict_del d k = filter (\<lambda>r. fst r \<noteq> k) d"

definition LF :: nat where
  "LF = 10"

definition CR :: nat where
  "CR = 13"

text \<open>\<open>s.split(sep)\<close> for a one-character separator.\<close>

fun split_on :: "'a \<Rightarrow> 'a list \<Rightarrow> 'a list list" where
  "split_on sep [] = [[]]"
| "split_on sep (c # cs) =
     (if c = sep then [] # split_on sep cs
      else (case split_on sep cs of [] \<Rightarrow> [[c]] | l # ls \<Rightarrow> (c # l) # ls))"

text \<open>\<open>s[i:j]\<close> for non-negative \<open>i\<close>, \<open>j\<close>.\<close>

definition slice :: "'a list \<Rightarrow> nat \<Rightarrow> nat \<Rightarrow> 'a list" where
  "slice s i j = take (j - i) (drop i s)"

definition startswith :: "'a list \<Rightarrow> 'a list \<Rightarrow> bool" where
  "startswith s pre = (take (length pre) s = pre)"

text \<open>
  Reading in text mode with the default \<open>newline=None\<close> turns \<open>\r\n\<close> and a lone
  \<open>\r\<close> into \<open>\n\<close>.
\<close>

fun universal_newlines :: "ustring \<Rightarrow> ustring" where
  "universal_newlines [] = []"
| "universal_newlines [c] = [if c = CR then LF else c]"
| "universal_newlines (c # d # cs) =
     (if c = CR \<and> d = LF then LF # universal_newlines cs
      else if c = CR then LF # universal_newlines (d # cs)
      else c # universal_newlines (d # cs))"

section \<open>Construction: loading and compiling the rules\<close>

text \<open>
  The loop of \<open>__init__\<close> over \<open>self.patterns.items()\<close>. The second component collects
  the names for which the warning is printed.
\<close>

fun compile_patterns ::
  "env \<Rightarrow> (string \<times> pattern_info) list \<Rightarrow> (string \<times> matcher) list \<times> string list
     \<Rightarrow> (string \<times> matcher) list \<times> string list" where
  "compile_patterns ev [] acc = acc"
| "compile_patterns ev ((name, pattern_info) # rest) (compiled, warned) =
     (case re_compile ev (regex pattern_info) of
        Some c \<Rightarrow> compile_patterns ev rest (dict_set compiled name c, warned)
      | None \<Rightarrow> compile_patterns ev rest (compiled, warned @ [name]))"

definition text_extensions :: "string list" where
  "text_extensions =
     [''.txt'', ''.md'', ''.py'', ''.js'', ''.html'', ''.htm'', ''.css'', ''.xml'', ''.json'',
      ''.yml'', ''.yaml'', ''.ini'', ''.cfg'', ''.conf'', ''.config'', ''.properties'',
      ''.sql'', ''.sh'', ''.bat'', ''.ps1'', ''.php'', ''.java'', ''.cpp'', ''.c'', ''.h'',
      ''.cs'', ''.go'', ''.rs'', ''.rb'', ''.pl'', ''.swift'', ''.kt'', ''.scala'', ''.clj'',
      ''.lua'', ''.r'', ''.m'', ''.dart'', ''.tsx'', ''.jsx'', ''.vue'', ''.log'', ''.env'',
      ''.dockerfile'', ''.makefile'', ''.gitignore'', ''.gitattributes'', ''.editorconfig'']"

definition binary_extensions :: "string list" where
  "binary_extensions =
     [''.exe'', ''.dll'', ''.so'', ''.dylib'', ''.bin'', ''.dat'', ''.db'', ''.sqlite'',
      ''.jpg'', ''.jpeg'', ''.png'', ''.gif'', ''.bmp'', ''.ico'', ''.svg'', ''.webp'',
      ''.mp4'', ''.avi'', ''.mkv'', ''.mov'', ''.wmv'', ''.flv'', ''.webm'', ''.m4v'',
      ''.mp3'', ''.wav'', ''.flac'', ''.aac'', ''.ogg'', ''.wma'', ''.m4a'',
      ''.zip'', ''.rar'', ''.7z'', ''.tar'', ''.gz'', ''.bz2'', ''.xz'', ''.lzma'',
      ''.pdf'', ''.doc'', ''.docx'', ''.xls'', ''.xlsx'', ''.ppt'', ''.pptx'',
      ''.class'', ''.jar'', ''.war'', ''.ear'', ''.pyc'', ''.pyo'', ''.pyd'']"

definition init_stats :: stats where
  "init_stats =
     \<lparr>stat_total_files = 0, stat_scanned_files = 0, stat_skipped_files = 0,
      stat_error_files = 0, stat_sensitive_items = 0,
      stat_start_time = None, stat_end_time = None\<rparr>"

text \<open>
  \<open>__init__\<close>, given the dictionary that \<open>load_patterns()\<close> returned. The result is
  the new object and the names warned about.
\<close>

definition init :: "env \<Rightarrow> (string \<times> pattern_info) list \<Rightarrow> extractor \<times> string list" where
  "init ev pats =
     (let (compiled, warned) = compile_patterns ev pats ([], [])
      in (\<lparr>patterns = pats, compiled_patterns = compiled, results = [],
           scanned_files = [], skipped_files = [], error_files = [],
           is_scanning = False, scan_cancelled = False, stats = init_stats\<rparr>,
          warned))"

section \<open>Classifying and reading a file\<close>

definition text_mime_types :: "string list" where
  "text_mime_types = [''application/json'', ''application/xml'', ''application/javascript'']"

text \<open>The last resort of \<open>is_text_file\<close>: look at the first 1024 bytes.\<close>

definition sniff_text :: "env \<Rightarrow> path \<Rightarrow> bool" where
  "sniff_text ev file_path =
     (case read_bytes ev file_path of
        Inl e \<Rightarrow> False
      | Inr bs \<Rightarrow>
          (let chunk = take 1024 bs
           in if 0 \<in> set chunk then False
              else if bytes_decode_ok ev UTF8 chunk then True
              else if bytes_decode_ok ev GBK chunk then True
              else False))"

definition is_text_file :: "env \<Rightarrow> path \<Rightarrow> bool" where
  "is_text_file ev file_path =
     (if suffix_lower ev file_path \<in> set binary_extensions then False
      else if suffix_lower ev file_path \<in> set text_extensions then True
      else (case guess_type ev file_path of
              Some mime_type \<Rightarrow>
                if mime_type \<noteq> []
                then startswith mime_type ''text/'' \<or> mime_type \<in> set text_mime_types
                else sniff_text ev file_path
            | None \<Rightarrow> sniff_text ev file_path))"

text \<open>Latin-1 maps every byte to the code point of the same number.\<close>

definition latin1_decode :: "byte list \<Rightarrow> ustring" where
  "latin1_decode bs = map unat bs"

definition decode :: "env \<Rightarrow> encoding \<Rightarrow> byte list \<Rightarrow> ustring attempt" where
  "decode ev enc bs = (if enc = Latin1 then Returned (latin1_decode bs) else text_decode ev enc bs)"

text \<open>\<open>with open(file_path, 'r', encoding=enc) as f: return f.read()\<close>, as one attempt.\<close>

definition read_text :: "env \<Rightarrow> encoding \<Rightarrow> path \<Rightarrow> ustring attempt" where
  "read_text ev enc file_path =
     (case read_bytes ev file_path of
        Inl e \<Rightarrow> OtherException e
      | Inr bs \<Rightarrow>
          (case decode ev enc bs of
             Returned t \<Rightarrow> Returned (universal_newlines t)
           | UnicodeDecodeError \<Rightarrow> UnicodeDecodeError
           | OtherException e \<Rightarrow> OtherException e))"

definition encodings :: "encoding list" where
  "encodings = [UTF8, GBK, GB2312, UTF16, Latin1]"

text \<open>The \<open>for encoding in encodings\<close> loop, with the statements after it.\<close>

fun try_encodings :: "env \<Rightarrow> extractor \<Rightarrow> path \<Rightarrow> encoding list \<Rightarrow> ustring \<times> extractor" where
  "try_encodings ev st file_path [] =
     ([], st\<lparr>error_files := error_files st @ [(file_path, NoEncodingWorked)]\<rparr>)"
| "try_encodings ev st file_path (enc # rest) =
     (case read_text ev enc file_path of
        Returned t \<Rightarrow> (t, st)
      | UnicodeDecodeError \<Rightarrow> try_encodings ev st file_path rest
      | OtherException e \<Rightarrow>
          ([], st\<lparr>error_files := error_files st @ [(file_path, ExnMessage e)]\<rparr>))"

definition read_file_content :: "env \<Rightarrow> extractor \<Rightarrow> path \<Rightarrow> ustring \<times> extractor" where
  "read_file_content ev st file_path = try_encodings ev st file_path encodings"

section \<open>Scanning one file\<close>

text \<open>
  The loop over \<open>enumerate(lines, 1)\<close> with the inner loop over
  \<open>compiled_pattern.finditer(line)\<close>, appending \<open>(match.group(0), line_num)\<close>.
\<close>

fun match_lines :: "matcher \<Rightarrow> nat \<Rightarrow> ustring list \<Rightarrow> matches" where
  "match_lines compiled_pattern line_num [] = []"
| "match_lines compiled_pattern line_num (line # rest) =
     map (\<lambda>(s, e). (slice line s e, line_num)) (compiled_pattern line)
       @ match_lines compiled_pattern (Suc line_num) rest"

text \<open>\<open>str(KeyError(k))\<close> for a string key: the key between single quotes.\<close>

definition key_error :: "string \<Rightarrow> string" where
  "key_error k = [CHR 0x27] @ k @ [CHR 0x27]"

definition is_enabled :: "pattern_info \<Rightarrow> bool" where
  "is_enabled info = (case enabled info of None \<Rightarrow> True | Some b \<Rightarrow> b)"

text \<open>
  The loop over \<open>self.compiled_patterns.items()\<close>. \<open>self.patterns[pattern_name]\<close>
  raises \<open>KeyError\<close> for a missing name; the exception leaves \<open>scan_file\<close>.
\<close>

fun scan_patterns ::
  "extractor \<Rightarrow> ustring list \<Rightarrow> (string \<times> matcher) list \<Rightarrow> file_results
     \<Rightarrow> string + file_results" where
  "scan_patterns st lines [] file_results = Inr file_results"
| "scan_patterns st lines ((pattern_name, compiled_pattern) # rest) file_results =
     (if scan_cancelled st then Inr file_results
      else (case map_of (patterns st) pattern_name of
              None \<Rightarrow> Inl (key_error pattern_name)
            | Some info \<Rightarrow>
                if \<not> is_enabled info then scan_patterns st lines rest file_results
                else (let matches = match_lines compiled_pattern 1 lines
                      in scan_patterns st lines rest
                           (if matches \<noteq> [] then dict_set file_results pattern_name matches
                            else file_results))))"

text \<open>
  \<open>scan_file\<close> returns the dictionary of matches, or \<open>Inl\<close> the message of the exception
  that escapes it, together with the updated object.
\<close>

definition scan_file :: "env \<Rightarrow> extractor \<Rightarrow> path \<Rightarrow> (string + file_results) \<times> extractor" where
  "scan_file ev st file_path =
     (if scan_cancelled st then (Inr [], st)
      else if \<not> is_text_file ev file_path
      then (Inr [], st\<lparr>skipped_files := skipped_files st @ [file_path]\<rparr>)
      else (let (content, st1) = read_file_content ev st file_path
            in if content = [] then (Inr [], st1)
               else (let st2 = st1\<lparr>scanned_files := scanned_files st1 @ [file_path]\<rparr>;
                         lines = split_on LF content
                     in (scan_patterns st2 lines (compiled_patterns st2) [], st2))))"

section \<open>Walking the directory\<close>

definition skipped_dir_names :: "string list" where
  "skipped_dir_names =
     [''node_modules'', ''__pycache__'', ''.git'', ''.svn'', ''target'', ''build'',
      ''dist'', ''bin'', ''obj'', ''out'', ''.idea'', ''.vscode'']"

definition kept_hidden_files :: "string list" where
  "kept_hidden_files = [''.env'', ''.gitignore'', ''.gitattributes'']"

definition keep_dir :: "string \<Rightarrow> bool" where
  "keep_dir d = (\<not> startswith d ''.'' \<and> d \<notin> set skipped_dir_names)"

definition keep_file :: "string \<Rightarrow> bool" where
  "keep_file f = (\<not> (startswith f ''.'' \<and> f \<notin> set kept_hidden_files))"

text \<open>\<open>os.path.join(root, name)\<close> for a relative \<open>name\<close>, with \<open>/\<close> as the separator.\<close>

definition path_join :: "path \<Rightarrow> string \<Rightarrow> path" where
  "path_join root name =
     (if root = [] \<or> last root = CHR ''/'' then root @ name else root @ ''/'' @ name)"

text \<open>
  \<open>os.walk\<close> top-down: the files of a directory first, then the subdirectories left
  in \<open>dirs\<close> after the pruning, in turn.
\<close>

fun walk_files :: "path \<Rightarrow> dir_tree \<Rightarrow> path list"
  and walk_dirs :: "path \<Rightarrow> (string \<times> dir_tree) list \<Rightarrow> path list" where
  "walk_files root (Dir_tree files dirs) =
     map (path_join root) (filter keep_file files) @ walk_dirs root dirs"
| "walk_dirs root [] = []"
| "walk_dirs root ((d, t) # rest) =
     (if keep_dir d then walk_files (path_join root d) t else []) @ walk_dirs root rest"

text \<open>
  \<open>get_all_files\<close>. The root is passed through \<open>Path(directory_path)\<close> before the
  walk, which drops a trailing separator and the like; the model takes the root as
  already in that form and does not normalise it.
\<close>

definition get_all_files :: "env \<Rightarrow> path \<Rightarrow> path list" where
  "get_all_files ev directory_path = walk_files directory_path (dir_tree_of ev directory_path)"

section \<open>Scanning a directory\<close>

definition cancel_scan :: "extractor \<Rightarrow> extractor" where
  "cancel_scan st = st\<lparr>scan_cancelled := True\<rparr>"

definition dict_get_or :: "('k \<times> 'v) list \<Rightarrow> 'k \<Rightarrow> 'v \<Rightarrow> 'v" where
  "dict_get_or d k dflt = (case map_of d k of None \<Rightarrow> dflt | Some v \<Rightarrow> v)"

text \<open>
  The loop over \<open>file_results.items()\<close> on the entry \<open>self.results[file_path]\<close> and the
  counter \<open>sensitive_items\<close>.
\<close>

fun merge_matches :: "file_results \<Rightarrow> file_results \<Rightarrow> nat \<Rightarrow> file_results \<times> nat" where
  "merge_matches entry [] n = (entry, n)"
| "merge_matches entry ((pattern_name, matches) # rest) n =
     (let entry1 = (if map_of entry pattern_name = None then dict_set entry pattern_name []
                    else entry);
          entry2 = dict_set entry1 pattern_name (dict_get_or entry1 pattern_name [] @ matches)
      in merge_matches entry2 rest (n + length matches))"

definition merge_file_results :: "extractor \<Rightarrow> path \<Rightarrow> file_results \<Rightarrow> extractor" where
  "merge_file_results st file_path file_results =
     (if file_results = [] then st
      else (let res1 = (if map_of (results st) file_path = None
                        then dict_set (results st) file_path [] else results st);
                (entry, n) = merge_matches (dict_get_or res1 file_path []) file_results
                               (stat_sensitive_items (stats st))
            in st\<lparr>results := dict_set res1 file_path entry,
                  stats := (stats st)\<lparr>stat_sensitive_items := n\<rparr>\<rparr>))"

text \<open>
  The tasks of the pool and the loop over \<open>as_completed\<close>, taken one file at a time
  in the order of the list: the task of a file runs \<open>scan_file\<close>, then the loop handles
  its result. \<open>cancel_req k\<close> says that \<open>cancel_scan()\<close> is called from outside just
  before task \<open>k\<close> starts. Once the loop has seen the flag and left, every task still
  queued finds the flag set and returns at once. The two callbacks are taken to return
  normally and to leave the object alone. The size of the pool (\<open>max_workers\<close>) has
  no place in this sequential order and is left out.
\<close>

fun run_tasks :: "env \<Rightarrow> (nat \<Rightarrow> bool) \<Rightarrow> nat \<Rightarrow> path list \<Rightarrow> extractor \<Rightarrow> extractor" where
  "run_tasks ev cancel_req k [] st = st"
| "run_tasks ev cancel_req k (file_path # rest) st =
     (let st0 = (if cancel_req k then cancel_scan st else st);
          (outcome, st1) = scan_file ev st0 file_path
      in if scan_cancelled st1 then st1
         else run_tasks ev cancel_req (Suc k) rest
                (case outcome of
                   Inr file_results \<Rightarrow> merge_file_results st1 file_path file_results
                 | Inl e \<Rightarrow> st1\<lparr>error_files := error_files st1 @ [(file_path, ExnMessage e)]\<rparr>))"

text \<open>
  \<open>scan_directory\<close>; \<open>t_start\<close> and \<open>t_end\<close> are the two readings of
  \<open>datetime.now()\<close>. The first component is the exception raised to the caller.
\<close>

definition scan_directory ::
  "env \<Rightarrow> (nat \<Rightarrow> bool) \<Rightarrow> nat \<Rightarrow> nat \<Rightarrow> extractor \<Rightarrow> path \<Rightarrow> scan_error option \<times> extractor" where
  "scan_directory ev cancel_req t_start t_end st directory_path =
     (if \<not> path_exists ev directory_path then (Some FileNotFoundError, st)
      else if \<not> path_is_dir ev directory_path then (Some NotADirectoryError, st)
      else (let st1 = st\<lparr>is_scanning := True, scan_cancelled := False,
                         stats := (stats st)\<lparr>stat_start_time := Some t_start\<rparr>\<rparr>;
                all_files = get_all_files ev directory_path;
                st2 = st1\<lparr>stats := (stats st1)\<lparr>stat_total_files := length all_files\<rparr>\<rparr>;
                st3 = run_tasks ev cancel_req 0 all_files st2;
                st4 = st3\<lparr>stats := (stats st3)\<lparr>stat_scanned_files := length (scanned_files st3),
                                               stat_skipped_files := length (skipped_files st3),
                                               stat_error_files := length (error_files st3),
                                               stat_end_time := Some t_end\<rparr>,
                         is_scanning := False\<rparr>
            in (None, st4)))"

text \<open>
  The object that differs from \<open>st\<close> only in that the rule \<open>name\<close> is absent, from
  the rule set and from the compiled set.
\<close>

definition drop_rule :: "string \<Rightarrow> extractor \<Rightarrow> extractor" where
  "drop_rule name st =
     st\<lparr>patterns := dict_del (patterns st) name,
        compiled_patterns := dict_del (compiled_patterns st) name\<rparr>"






section \<open>A sample file system\<close>

text \<open>
  A small environment on which the definitions can be run. The directory \<open>proj\<close> holds
  an ASCII text file, an empty text file, an image, a file that cannot be opened, a
  hidden file, and a pruned and a kept subdirectory, the latter with a file without
  extension. Further files are known by name only: four files with bytes beyond ASCII
  (\<open>legacy.txt\<close> = FF FE E9, \<open>raw.txt\<close> = E9, \<open>cafe.txt\<close> = 63 61 66 E9,
  \<open>ffff.txt\<close> = FF FF), a CSV file and a compressed archive.

  The codecs behave on these files as those of CPython do. UTF-8, GBK and GB2312 return
  pure ASCII as it is and raise \<open>UnicodeDecodeError\<close> on each of the four other
  files. The UTF-16 codec of a file opened in text mode returns the empty string for no
  bytes, raises \<open>UnicodeDecodeError\<close> (truncated data) for an odd number of bytes,
  decodes after a byte order mark, and for an even number of bytes without one raises
  \<open>UnicodeError\<close>, which is not a \<open>UnicodeDecodeError\<close>. \<open>guess_type\<close> knows the
  suffixes \<open>.csv\<close> and \<open>.tgz\<close>. The regex compiler knows the source \<open>@\<close>, which
  finds every \<open>@\<close> sign, rejects \<open>(\<close>, and compiles everything else to a pattern
  that never matches.
\<close>

definition sample_tree :: dir_tree where
  "sample_tree =
     Dir_tree [''a.txt'', ''empty.txt'', ''b.png'', ''locked.txt'', ''.hidden'']
       [(''build'', Dir_tree [''out.txt''] []),
        (''sub'', Dir_tree [''notes''] [])]"

definition sample_suffix :: "path \<Rightarrow> string" where
  "sample_suffix p =
     (if p \<in> set [''proj/a.txt'', ''proj/empty.txt'', ''proj/locked.txt'',
                   ''proj/legacy.txt'', ''proj/raw.txt'', ''proj/cafe.txt'',
                   ''proj/ffff.txt''] then ''.txt''
      else if p = ''proj/b.png'' then ''.png''
      else if p = ''proj/data.csv'' then ''.csv''
      else if p = ''proj/archive.tgz'' then ''.tgz''
      else [])"

definition sample_bytes :: "path \<Rightarrow> string + byte list" where
  "sample_bytes p =
     (if p = ''proj/a.txt'' then Inr [0x68, 0x69, 0x0A, 0x61, 0x40, 0x62, 0x40]
      else if p = ''proj/empty.txt'' then Inr []
      else if p = ''proj/b.png'' then Inr [0x89, 0x50, 0x00]
      else if p = ''proj/legacy.txt'' then Inr [0xFF, 0xFE, 0xE9]
      else if p = ''proj/raw.txt'' then Inr [0xE9]
      else if p = ''proj/cafe.txt'' then Inr [0x63, 0x61, 0x66, 0xE9]
      else if p = ''proj/ffff.txt'' then Inr [0xFF, 0xFF]
      else if p = ''proj/data.csv'' then Inr [0x31, 0x2C, 0x32]
      else if p = ''proj/sub/notes'' then Inr [0x6F, 0x40, 0x6B]
      else Inl ''Permission denied'')"

definition is_ascii :: "byte list \<Rightarrow> bool" where
  "is_ascii bs = list_all (\<lambda>b. b < 0x80) bs"

text \<open>The code units of UTF-16 data, little or big endian; surrogates are not paired.\<close>

fun utf16_units :: "bool \<Rightarrow> byte list \<Rightarrow> ustring" where
  "utf16_units le (a # b # rest) =
     (if le then unat a + 256 * unat b else 256 * unat a + unat b) # utf16_units le rest"
| "utf16_units le [a] = []"
| "utf16_units le [] = []"

definition sample_utf16 :: "byte list \<Rightarrow> ustring attempt" where
  "sample_utf16 bs =
     (if bs = [] then Returned []
      else if odd (length bs) then UnicodeDecodeError
      else if take 2 bs = [0xFF, 0xFE] then Returned (utf16_units True (drop 2 bs))
      else if take 2 bs = [0xFE, 0xFF] then Returned (utf16_units False (drop 2 bs))
      else OtherException ''UTF-16 stream does not start with BOM'')"

definition sample_text_decode :: "encoding \<Rightarrow> byte list \<Rightarrow> ustring attempt" where
  "sample_text_decode enc bs =
     (if enc = UTF16 then sample_utf16 bs
      else if is_ascii bs then Returned (map unat bs)
      else UnicodeDecodeError)"

definition find_code_point :: "nat \<Rightarrow> nat \<Rightarrow> ustring \<Rightarrow> (nat \<times> nat) list" where
  "find_code_point c i line = map (\<lambda>k. (k, Suc k)) (filter (\<lambda>k. line ! k = c) [i..<length line])"

definition sample_re_compile :: "string \<Rightarrow> matcher option" where
  "sample_re_compile src =
     (if src = ''@'' then Some (find_code_point 64 0)
      else if src = ''('' then None
      else Some (\<lambda>line. []))"

definition sample_env :: env where
  "sample_env =
     \<lparr>path_exists = (\<lambda>p. p = ''proj'' \<or> p = ''proj/sub'' \<or> p = ''proj/a.txt''),
      path_is_dir = (\<lambda>p. p = ''proj'' \<or> p = ''proj/sub''),
      dir_tree_of = (\<lambda>p. if p = ''proj/sub'' then Dir_tree [''notes''] [] else sample_tree),
      suffix_lower = sample_suffix,
      guess_type = (\<lambda>p. if p = ''proj/data.csv'' then Some ''text/csv''
                         else if p = ''proj/archive.tgz'' then Some ''application/x-tar''
                         else None),
      read_bytes = sample_bytes,
      bytes_decode_ok = (\<lambda>enc bs. is_ascii bs),
      text_decode = sample_text_decode,
      re_compile = sample_re_compile\<rparr>"

definition rule :: "string \<Rightarrow> bool option \<Rightarrow> pattern_info" where
  "rule src en = \<lparr>regex = src, description = [], risk_level = [], enabled = en\<rparr>"

definition sample_patterns :: "(string \<times> pattern_info) list" where
  "sample_patterns =
     [(''at'', rule ''@'' (Some True)), (''bad'', rule ''('' None), (''off'', rule ''@'' (Some False))]"

definition sample_extractor :: extractor where
  "sample_extractor = fst (init sample_env sample_patterns)"



section \<open>The classifier\<close>

text \<open>
  Claim C7. \<open>is_text_file\<close> applies its rules in order and the first applicable one
  decides: a suffix in the binary list gives not-text; otherwise a suffix in the text
  list gives text; otherwise a MIME type that \<open>guess_type\<close> resolves (a non-empty
  string) gives text exactly when it starts with \<open>text/\<close> or is the JSON, XML or
  JavaScript type; otherwise the first 1024 bytes are read, a failure to read gives
  not-text, a null byte in the chunk gives not-text, and the file is text exactly when
  the chunk decodes as UTF-8 or as GBK.
\<close>

theorem is_text_file_rules:
  "(suffix_lower ev p \<in> set binary_extensions \<longrightarrow> \<not> is_text_file ev p) \<and>
   (suffix_lower ev p \<notin> set binary_extensions \<and> suffix_lower ev p \<in> set text_extensions
      \<longrightarrow> is_text_file ev p) \<and>
   (suffix_lower ev p \<notin> set binary_extensions \<and> suffix_lower ev p \<notin> set text_extensions \<and>
    guess_type ev p = Some m \<and> m \<noteq> []
      \<longrightarrow> is_text_file ev p =
            (startswith m ''text/'' \<or>
             m \<in> {''application/json'', ''application/xml'', ''application/javascript''})) \<and>
   (suffix_lower ev p \<notin> set binary_extensions \<and> suffix_lower ev p \<notin> set text_extensions \<and>
    (guess_type ev p = None \<or> guess_type ev p = Some [])
      \<longrightarrow> (case read_bytes ev p of
              Inl e \<Rightarrow> \<not> is_text_file ev p
            | Inr bs \<Rightarrow>
                is_text_file ev p =
                  (0 \<notin> set (take 1024 bs) \<and>
                   (bytes_decode_ok ev UTF8 (take 1024 bs) \<or>
                    bytes_decode_ok ev GBK (take 1024 bs)))))"
  by (auto simp: is_text_file_def sniff_text_def text_mime_types_def Let_def
      split: sum.splits if_splits)

theorem is_text_file_rules_witness:
  "\<not> is_text_file sample_env ''proj/b.png'' \<and>
   is_text_file sample_env ''proj/a.txt'' \<and>
   is_text_file sample_env ''proj/data.csv'' \<and>
   \<not> is_text_file sample_env ''proj/archive.tgz'' \<and>
   is_text_file sample_env ''proj/sub/notes'' \<and>
   \<not> is_text_file sample_env ''proj/nowhere''"
  using is_text_file_rules [of sample_env "''proj/b.png''" "[]"]
    is_text_file_rules [of sample_env "''proj/a.txt''" "[]"]
    is_text_file_rules [of sample_env "''proj/data.csv''" "''text/csv''"]
    is_text_file_rules [of sample_env "''proj/archive.tgz''" "''application/x-tar''"]
    is_text_file_rules [of sample_env "''proj/sub/notes''" "[]"]
    is_text_file_rules [of sample_env "''proj/nowhere''" "[]"]
  by (simp add: sample_env_def sample_suffix_def sample_bytes_def is_ascii_def
      binary_extensions_def text_extensions_def startswith_def)

section \<open>The content reader\<close>

lemma try_encodings_skip:
  "\<forall>x\<in>set pre. read_text ev x p = UnicodeDecodeError \<Longrightarrow>
   try_encodings ev st p (pre @ rest) = try_encodings ev st p rest"
  by (induction pre) auto

lemma sample_read_text:
  "read_text sample_env UTF8 ''proj/legacy.txt'' = UnicodeDecodeError"
  "read_text sample_env GBK ''proj/legacy.txt'' = UnicodeDecodeError"
  "read_text sample_env GB2312 ''proj/legacy.txt'' = UnicodeDecodeError"
  "read_text sample_env UTF16 ''proj/legacy.txt'' = UnicodeDecodeError"
  "read_text sample_env Latin1 ''proj/legacy.txt'' = Returned [255, 254, 233]"
  "read_text sample_env UTF8 ''proj/raw.txt'' = UnicodeDecodeError"
  "read_text sample_env GBK ''proj/raw.txt'' = UnicodeDecodeError"
  "read_text sample_env GB2312 ''proj/raw.txt'' = UnicodeDecodeError"
  "read_text sample_env UTF16 ''proj/raw.txt'' = UnicodeDecodeError"
  "read_text sample_env Latin1 ''proj/raw.txt'' = Returned [233]"
  by (simp_all add: read_text_def decode_def sample_env_def sample_bytes_def
      sample_text_decode_def sample_utf16_def is_ascii_def latin1_decode_def CR_def LF_def)

lemma sample_read_cafe:
  "read_text sample_env UTF8 ''proj/cafe.txt'' = UnicodeDecodeError"
  "read_text sample_env GBK ''proj/cafe.txt'' = UnicodeDecodeError"
  "read_text sample_env GB2312 ''proj/cafe.txt'' = UnicodeDecodeError"
  "read_text sample_env UTF16 ''proj/cafe.txt'' =
     OtherException ''UTF-16 stream does not start with BOM''"
  "read_text sample_env Latin1 ''proj/cafe.txt'' = Returned [99, 97, 102, 233]"
  by (simp_all add: read_text_def decode_def sample_env_def sample_bytes_def
      sample_text_decode_def sample_utf16_def is_ascii_def latin1_decode_def CR_def LF_def)

lemma sample_read_ffff:
  "read_text sample_env UTF8 ''proj/ffff.txt'' = UnicodeDecodeError"
  "read_text sample_env GBK ''proj/ffff.txt'' = UnicodeDecodeError"
  "read_text sample_env GB2312 ''proj/ffff.txt'' = UnicodeDecodeError"
  "read_text sample_env UTF16 ''proj/ffff.txt'' =
     OtherException ''UTF-16 stream does not start with BOM''"
  "read_text sample_env Latin1 ''proj/ffff.txt'' = Returned [255, 255]"
  by (simp_all add: read_text_def decode_def sample_env_def sample_bytes_def
      sample_text_decode_def sample_utf16_def is_ascii_def latin1_decode_def CR_def LF_def)

text \<open>
  The loop of \<open>read_file_content\<close> in general. When every encoding before some encoding
  raises \<open>UnicodeDecodeError\<close>: if that encoding's read returns, its text is the result
  and nothing is recorded; if it raises any exception of another class, the file is
  appended to the error list with the exception's message and the empty string is
  returned, the later encodings untried; and when the list ends there, the file is
  appended to the error list with the fixed message and the empty string is returned.
\<close>

lemma try_encodings_first_decisive:
  "read_file_content ev st p = try_encodings ev st p [UTF8, GBK, GB2312, UTF16, Latin1] \<and>
   ((\<forall>x\<in>set pre. read_text ev x p = UnicodeDecodeError) \<longrightarrow>
      (read_text ev enc p = Returned t \<longrightarrow> try_encodings ev st p (pre @ enc # post) = (t, st)) \<and>
      (read_text ev enc p = OtherException e \<longrightarrow>
         try_encodings ev st p (pre @ enc # post) =
           ([], st\<lparr>error_files := error_files st @ [(p, ExnMessage e)]\<rparr>)) \<and>
      try_encodings ev st p pre =
        ([], st\<lparr>error_files := error_files st @ [(p, NoEncodingWorked)]\<rparr>))"
  using try_encodings_skip [of pre ev p st "enc # post"] try_encodings_skip [of pre ev p st "[]"]
  by (auto simp: read_file_content_def encodings_def)

lemma sample_read_legacy:
  "read_file_content sample_env st ''proj/legacy.txt'' = ([255, 254, 233], st)"
  "read_file_content sample_env st ''proj/raw.txt'' = ([233], st)"
  by (simp_all add: read_file_content_def encodings_def sample_read_text)

text \<open>
  Claim C6. The reader should try UTF-8, GBK, GB2312, UTF-16 and Latin-1 in this order
  and return the text of the first decode that succeeds, recording an error only when
  every encoding fails or an I/O error occurs. The loop goes on to the next encoding only
  after a \<open>UnicodeDecodeError\<close>; the \<open>UnicodeError\<close> with which UTF-16 refuses data
  without a byte order mark is handled as any other exception, and ends the loop. The
  file \<open>cafe.txt\<close> (the bytes 63 61 66 E9) can be opened, is rejected by UTF-8, GBK and
  GB2312, and Latin-1 decodes it; the reader records it as an error with the message of
  UTF-16 and returns the empty string, Latin-1 untried.
\<close>

theorem utf16_error_ends_the_chain:
  "read_bytes sample_env ''proj/cafe.txt'' = Inr [0x63, 0x61, 0x66, 0xE9] \<and>
   read_text sample_env UTF8 ''proj/cafe.txt'' = UnicodeDecodeError \<and>
   read_text sample_env GBK ''proj/cafe.txt'' = UnicodeDecodeError \<and>
   read_text sample_env GB2312 ''proj/cafe.txt'' = UnicodeDecodeError \<and>
   read_text sample_env UTF16 ''proj/cafe.txt'' =
     OtherException ''UTF-16 stream does not start with BOM'' \<and>
   read_text sample_env Latin1 ''proj/cafe.txt'' = Returned [99, 97, 102, 233] \<and>
   read_file_content sample_env sample_extractor ''proj/cafe.txt'' =
     ([], sample_extractor\<lparr>error_files := error_files sample_extractor @
        [(''proj/cafe.txt'', ExnMessage ''UTF-16 stream does not start with BOM'')]\<rparr>)"
proof -
  have "read_bytes sample_env ''proj/cafe.txt'' = Inr [0x63, 0x61, 0x66, 0xE9]"
    by (simp add: sample_env_def sample_bytes_def)
  moreover have "read_file_content sample_env sample_extractor ''proj/cafe.txt'' =
     ([], sample_extractor\<lparr>error_files := error_files sample_extractor @
        [(''proj/cafe.txt'', ExnMessage ''UTF-16 stream does not start with BOM'')]\<rparr>)"
    by (simp add: read_file_content_def encodings_def sample_read_cafe)
  ultimately show ?thesis by (simp add: sample_read_cafe)
qed

lemma read_text_Latin1: "read_text ev Latin1 p \<noteq> UnicodeDecodeError"
  by (simp add: read_text_def decode_def split: sum.splits)

lemma try_encodings_cases:
  "(\<exists>t. try_encodings ev st p encs = (t, st)) \<or>
   (\<exists>e. try_encodings ev st p encs =
          ([], st\<lparr>error_files := error_files st @ [(p, ExnMessage e)]\<rparr>)) \<or>
   ((\<forall>x\<in>set encs. read_text ev x p = UnicodeDecodeError) \<and>
    try_encodings ev st p encs =
      ([], st\<lparr>error_files := error_files st @ [(p, NoEncodingWorked)]\<rparr>))"
  by (induction encs) (auto split: attempt.splits)

lemma read_file_content_cases:
  "(\<exists>t. read_file_content ev st p = (t, st)) \<or>
   (\<exists>e. read_file_content ev st p =
          ([], st\<lparr>error_files := error_files st @ [(p, ExnMessage e)]\<rparr>))"
proof -
  have "\<not> (\<forall>x\<in>set encodings. read_text ev x p = UnicodeDecodeError)"
    using read_text_Latin1 [of ev p] by (auto simp: encodings_def)
  then show ?thesis
    using try_encodings_cases [of ev st p encodings]
    by (auto simp: read_file_content_def)
qed

lemma append_error_neq:
  "st \<noteq> st\<lparr>error_files := error_files st @ [x]\<rparr>"
proof
  assume "st = st\<lparr>error_files := error_files st @ [x]\<rparr>"
  then have "error_files st = error_files (st\<lparr>error_files := error_files st @ [x]\<rparr>)"
    by (rule arg_cong)
  then show False by simp
qed

text \<open>
  Latin-1 decodes every byte sequence, so the statements after the encoding loop are
  never reached: the reader never records the fixed message of the exhausted list.
\<close>

lemma read_file_content_never_exhausts:
  "snd (read_file_content ev st p) \<noteq>
     st\<lparr>error_files := error_files st @ [(p, NoEncodingWorked)]\<rparr>"
proof -
  have neq: "st\<lparr>error_files := error_files st @ [(p, ExnMessage e)]\<rparr> \<noteq>
      st\<lparr>error_files := error_files st @ [(p, NoEncodingWorked)]\<rparr>" for e
  proof
    assume "st\<lparr>error_files := error_files st @ [(p, ExnMessage e)]\<rparr> =
      st\<lparr>error_files := error_files st @ [(p, NoEncodingWorked)]\<rparr>"
    then have "error_files (st\<lparr>error_files := error_files st @ [(p, ExnMessage e)]\<rparr>) =
      error_files (st\<lparr>error_files := error_files st @ [(p, NoEncodingWorked)]\<rparr>)"
      by (rule arg_cong)
    then show False by simp
  qed
  show ?thesis
    using read_file_content_cases [of ev st p] neq append_error_neq [of st] by auto
qed

text \<open>
  When the four encodings before it all raise \<open>UnicodeDecodeError\<close> on the bytes of a
  file, the result is the Latin-1 text of these bytes.
\<close>

lemma latin1_fallback:
  assumes "read_bytes ev p = Inr bs"
    and "text_decode ev UTF8 bs = UnicodeDecodeError"
    and "text_decode ev GBK bs = UnicodeDecodeError"
    and "text_decode ev GB2312 bs = UnicodeDecodeError"
    and "text_decode ev UTF16 bs = UnicodeDecodeError"
  shows "read_file_content ev st p = (universal_newlines (latin1_decode bs), st)"
  using assms by (simp add: read_file_content_def encodings_def read_text_def decode_def)

text \<open>
  Claim C10. A file that can be opened and read should always come back as text, since
  Latin-1, the last encoding, decodes every byte sequence. The exhausted branch is indeed
  never reached, but Latin-1 is reached only when UTF-16 raises
  \<open>UnicodeDecodeError\<close>. The file \<open>ffff.txt\<close> (the bytes FF FF) can be read and Latin-1
  decodes it, yet UTF-16 refuses it with a \<open>UnicodeError\<close> for the missing byte order
  mark, and the reader returns the empty string and records the file as an error.
\<close>

theorem readable_file_recorded_as_error:
  "read_bytes sample_env ''proj/ffff.txt'' = Inr [0xFF, 0xFF] \<and>
   decode sample_env Latin1 [0xFF, 0xFF] = Returned [255, 255] \<and>
   read_text sample_env UTF16 ''proj/ffff.txt'' =
     OtherException ''UTF-16 stream does not start with BOM'' \<and>
   read_file_content sample_env sample_extractor ''proj/ffff.txt'' =
     ([], sample_extractor\<lparr>error_files := error_files sample_extractor @
        [(''proj/ffff.txt'', ExnMessage ''UTF-16 stream does not start with BOM'')]\<rparr>)"
proof -
  have "read_bytes sample_env ''proj/ffff.txt'' = Inr [0xFF, 0xFF]"
    by (simp add: sample_env_def sample_bytes_def)
  moreover have "decode sample_env Latin1 [0xFF, 0xFF] = Returned [255, 255]"
    by (simp add: decode_def latin1_decode_def)
  moreover have "read_file_content sample_env sample_extractor ''proj/ffff.txt'' =
     ([], sample_extractor\<lparr>error_files := error_files sample_extractor @
        [(''proj/ffff.txt'', ExnMessage ''UTF-16 stream does not start with BOM'')]\<rparr>)"
    by (simp add: read_file_content_def encodings_def sample_read_ffff)
  ultimately show ?thesis by (simp add: sample_read_ffff)
qed

section \<open>Loading the rules\<close>

lemma dict_set_fresh: "k \<notin> fst ` set d \<Longrightarrow> dict_set d k v = d @ [(k, v)]"
  by (induction d) auto

lemma compile_patterns_closed_form:
  "distinct (map fst pats) \<Longrightarrow> fst ` set compiled \<inter> fst ` set pats = {} \<Longrightarrow>
   compile_patterns ev pats (compiled, warned) =
     (compiled @ List.map_filter (\<lambda>r. map_option (Pair (fst r)) (re_compile ev (regex (snd r)))) pats,
      warned @ map fst (filter (\<lambda>r. re_compile ev (regex (snd r)) = None) pats))"
proof (induction pats arbitrary: compiled warned)
  case Nil
  then show ?case by simp
next
  case (Cons r pats)
  obtain name info where r: "r = (name, info)" by (cases r)
  show ?case
  proof (cases "re_compile ev (regex info)")
    case None
    with Cons r show ?thesis by simp
  next
    case (Some c)
    have fresh: "name \<notin> fst ` set compiled" using Cons.prems r by auto
    have "fst ` set (dict_set compiled name c) \<inter> fst ` set pats = {}"
      using Cons.prems r by (auto simp: dict_set_fresh [OF fresh])
    with Cons Some r fresh show ?thesis
      by (simp add: dict_set_fresh)
  qed
qed

lemma compiled_patterns_init:
  "distinct (map fst pats) \<Longrightarrow>
   compiled_patterns (fst (init ev pats)) =
     List.map_filter (\<lambda>r. map_option (Pair (fst r)) (re_compile ev (regex (snd r)))) pats"
  using compile_patterns_closed_form [of pats "[]" ev "[]"]
  by (simp add: init_def)

lemma warned_init:
  "distinct (map fst pats) \<Longrightarrow>
   snd (init ev pats) = map fst (filter (\<lambda>r. re_compile ev (regex (snd r)) = None) pats)"
  using compile_patterns_closed_form [of pats "[]" ev "[]"]
  by (simp add: init_def)

lemma patterns_init: "patterns (fst (init ev pats)) = pats"
  by (simp add: init_def split: prod.splits)

lemma mem_compiled_iff:
  "((n, c) \<in> set (List.map_filter (\<lambda>r. map_option (Pair (fst r)) (re_compile ev (regex (snd r)))) pats))
     = (\<exists>i. (n, i) \<in> set pats \<and> re_compile ev (regex i) = Some c)"
proof (induction pats)
  case Nil
  then show ?case by simp
next
  case (Cons r pats)
  obtain k j where r: "r = (k, j)" by (cases r)
  show ?case
  proof (cases "re_compile ev (regex j)")
    case None
    with Cons r show ?thesis by auto
  next
    case (Some c')
    with Cons r show ?thesis by auto
  qed
qed

lemma distinct_fst_unique:
  "distinct (map fst pats) \<Longrightarrow> (n, i) \<in> set pats \<Longrightarrow> (n, j) \<in> set pats \<Longrightarrow> i = j"
proof (induction pats)
  case Nil
  then show ?case by simp
next
  case (Cons r pats)
  have "n \<in> fst ` set pats" if "(n, x) \<in> set pats" for x
    using that by force
  with Cons show ?case by auto
qed

text \<open>
  Claim C8. Loading a rule set (with distinct names, as the keys of a dictionary are)
  never fails: \<open>__init__\<close> returns an object whose compiled set holds, in the order of
  the rule set, exactly one entry for every rule whose regex compiles, and the warning
  is printed for exactly the rules whose regex does not. A rule has an entry with
  matcher \<open>c\<close> if and only if its own regex compiles to \<open>c\<close>.
\<close>

theorem init_drops_only_bad_rules:
  assumes "distinct (map fst pats)"
  shows "patterns (fst (init ev pats)) = pats \<and>
     compiled_patterns (fst (init ev pats)) =
       List.map_filter (\<lambda>r. map_option (Pair (fst r)) (re_compile ev (regex (snd r)))) pats \<and>
     snd (init ev pats) = map fst (filter (\<lambda>r. re_compile ev (regex (snd r)) = None) pats) \<and>
     (\<forall>r\<in>set pats. \<forall>c.
        ((fst r, c) \<in> set (compiled_patterns (fst (init ev pats)))) =
          (re_compile ev (regex (snd r)) = Some c))"
proof (intro conjI ballI allI)
  show "patterns (fst (init ev pats)) = pats" by (rule patterns_init)
  show "compiled_patterns (fst (init ev pats)) =
       List.map_filter (\<lambda>r. map_option (Pair (fst r)) (re_compile ev (regex (snd r)))) pats"
    by (rule compiled_patterns_init [OF assms])
  show "snd (init ev pats) = map fst (filter (\<lambda>r. re_compile ev (regex (snd r)) = None) pats)"
    by (rule warned_init [OF assms])
next
  fix r c
  assume r: "r \<in> set pats"
  obtain n i where ni: "r = (n, i)" by (cases r)
  have "((n, c) \<in> set (compiled_patterns (fst (init ev pats)))) =
      (\<exists>j. (n, j) \<in> set pats \<and> re_compile ev (regex j) = Some c)"
    unfolding compiled_patterns_init [OF assms] by (rule mem_compiled_iff)
  also have "\<dots> = (re_compile ev (regex i) = Some c)"
  proof
    assume "\<exists>j. (n, j) \<in> set pats \<and> re_compile ev (regex j) = Some c"
    then obtain j where j: "(n, j) \<in> set pats" "re_compile ev (regex j) = Some c" by blast
    from distinct_fst_unique [OF assms j(1)] r ni have "j = i" by simp
    with j show "re_compile ev (regex i) = Some c" by simp
  next
    assume "re_compile ev (regex i) = Some c"
    with r ni show "\<exists>j. (n, j) \<in> set pats \<and> re_compile ev (regex j) = Some c" by blast
  qed
  finally show "((fst r, c) \<in> set (compiled_patterns (fst (init ev pats)))) =
          (re_compile ev (regex (snd r)) = Some c)"
    using ni by simp
qed

lemma sample_patterns_distinct: "distinct (map fst sample_patterns)"
  by (simp add: sample_patterns_def)

lemma sample_re_compile_simps:
  "re_compile sample_env ''@'' = Some (find_code_point 64 0)"
  "re_compile sample_env ''('' = None"
  by (simp_all add: sample_env_def sample_re_compile_def)

theorem init_drops_only_bad_rules_witness:
  "distinct (map fst sample_patterns) \<and>
   map fst (compiled_patterns (fst (init sample_env sample_patterns))) = [''at'', ''off''] \<and>
   snd (init sample_env sample_patterns) = [''bad'']"
  using init_drops_only_bad_rules [OF sample_patterns_distinct, of sample_env]
    sample_patterns_distinct
  by (simp add: sample_patterns_def rule_def sample_re_compile_simps)

section \<open>What a scan touches\<close>

lemma scan_patterns_cancelled: "scan_cancelled st \<Longrightarrow> scan_patterns st ls cps acc = Inr acc"
  by (cases cps) auto

lemma read_file_content_frame:
  "read_file_content ev st p = (t, st') \<Longrightarrow>
   patterns st' = patterns st \<and> compiled_patterns st' = compiled_patterns st \<and>
   results st' = results st \<and> scanned_files st' = scanned_files st \<and>
   skipped_files st' = skipped_files st \<and> is_scanning st' = is_scanning st \<and>
   scan_cancelled st' = scan_cancelled st \<and> stats st' = stats st"
  using read_file_content_cases [of ev st p] by auto

text \<open>The five ways through \<open>scan_file\<close>.\<close>

lemma scan_file_cases:
  "(scan_cancelled st \<and> scan_file ev st p = (Inr [], st)) \<or>
   (\<not> scan_cancelled st \<and> \<not> is_text_file ev p \<and>
      scan_file ev st p = (Inr [], st\<lparr>skipped_files := skipped_files st @ [p]\<rparr>)) \<or>
   (\<not> scan_cancelled st \<and> is_text_file ev p \<and>
      (\<exists>e. read_file_content ev st p =
              ([], st\<lparr>error_files := error_files st @ [(p, ExnMessage e)]\<rparr>) \<and>
           scan_file ev st p =
              (Inr [], st\<lparr>error_files := error_files st @ [(p, ExnMessage e)]\<rparr>))) \<or>
   (\<not> scan_cancelled st \<and> is_text_file ev p \<and>
      read_file_content ev st p = ([], st) \<and> scan_file ev st p = (Inr [], st)) \<or>
   (\<not> scan_cancelled st \<and> is_text_file ev p \<and>
      (\<exists>t. t \<noteq> [] \<and> read_file_content ev st p = (t, st) \<and>
           scan_file ev st p =
             (scan_patterns (st\<lparr>scanned_files := scanned_files st @ [p]\<rparr>) (split_on LF t)
                (compiled_patterns st) [],
              st\<lparr>scanned_files := scanned_files st @ [p]\<rparr>)))"
proof (cases "scan_cancelled st")
  case True
  then show ?thesis by (simp add: scan_file_def)
next
  case False
  note nc = this
  show ?thesis
  proof (cases "is_text_file ev p")
    case False
    with nc show ?thesis by (simp add: scan_file_def)
  next
    case True
    note istext = this
    from read_file_content_cases [of ev st p] show ?thesis
    proof
      assume "\<exists>t. read_file_content ev st p = (t, st)"
      then obtain t where t: "read_file_content ev st p = (t, st)" ..
      show ?thesis
      proof (cases "t = []")
        case True
        with nc istext t show ?thesis by (simp add: scan_file_def)
      next
        case False
        with nc istext t show ?thesis by (simp add: scan_file_def Let_def)
      qed
    next
      assume "\<exists>e. read_file_content ev st p =
          ([], st\<lparr>error_files := error_files st @ [(p, ExnMessage e)]\<rparr>)"
      then obtain e where "read_file_content ev st p =
          ([], st\<lparr>error_files := error_files st @ [(p, ExnMessage e)]\<rparr>)" ..
      with nc istext show ?thesis by (auto simp add: scan_file_def)
    qed
  qed
qed


lemma scan_file_frame:
  "scan_file ev st p = (r, st') \<Longrightarrow>
   patterns st' = patterns st \<and> compiled_patterns st' = compiled_patterns st \<and>
   results st' = results st \<and> is_scanning st' = is_scanning st \<and>
   scan_cancelled st' = scan_cancelled st \<and> stats st' = stats st"
  using scan_file_cases [of st ev p] by auto

lemma merge_file_results_frame:
  "patterns (merge_file_results st p fr) = patterns st \<and>
   compiled_patterns (merge_file_results st p fr) = compiled_patterns st \<and>
   scanned_files (merge_file_results st p fr) = scanned_files st \<and>
   skipped_files (merge_file_results st p fr) = skipped_files st \<and>
   error_files (merge_file_results st p fr) = error_files st \<and>
   is_scanning (merge_file_results st p fr) = is_scanning st \<and>
   scan_cancelled (merge_file_results st p fr) = scan_cancelled st \<and>
   stat_total_files (stats (merge_file_results st p fr)) = stat_total_files (stats st) \<and>
   stat_start_time (stats (merge_file_results st p fr)) = stat_start_time (stats st) \<and>
   stat_end_time (stats (merge_file_results st p fr)) = stat_end_time (stats st)"
  by (simp add: merge_file_results_def Let_def split: prod.splits)

lemma run_tasks_start_time:
  "stat_start_time (stats (run_tasks ev c k fs st)) = stat_start_time (stats st)"
proof (induction fs arbitrary: k st)
  case Nil
  then show ?case by simp
next
  case (Cons p fs)
  define st0 where "st0 = (if c k then cancel_scan st else st)"
  obtain r st1 where sf: "scan_file ev st0 p = (r, st1)" by (cases "scan_file ev st0 p")
  have a: "stat_start_time (stats st0) = stat_start_time (stats st)"
    by (simp add: st0_def cancel_scan_def)
  have b: "stat_start_time (stats st1) = stat_start_time (stats st0)"
    using scan_file_frame [OF sf] by simp
  show ?case
  proof (cases "scan_cancelled st1")
    case True
    with sf a b show ?thesis by (simp add: st0_def [symmetric])
  next
    case False
    have "stat_start_time (stats (case r of
        Inr file_results \<Rightarrow> merge_file_results st1 p file_results
      | Inl e \<Rightarrow> st1\<lparr>error_files := error_files st1 @ [(p, ExnMessage e)]\<rparr>))
      = stat_start_time (stats st1)"
      by (cases r) (simp_all add: merge_file_results_frame)
    with False sf a b Cons.IH show ?thesis by (simp add: st0_def [symmetric])
  qed
qed

text \<open>
  Claim C5. A root that does not exist makes \<open>scan_directory\<close> raise
  \<open>FileNotFoundError\<close>, and a root that exists but is not a directory makes it raise
  \<open>NotADirectoryError\<close>; in both cases the object is left exactly as it was. Only for
  an existing directory does the call return normally, with the start time recorded.
\<close>

theorem scan_directory_path_errors:
  "(\<not> path_exists ev d \<longrightarrow>
      scan_directory ev cancel_req t_start t_end st d = (Some FileNotFoundError, st)) \<and>
   (path_exists ev d \<and> \<not> path_is_dir ev d \<longrightarrow>
      scan_directory ev cancel_req t_start t_end st d = (Some NotADirectoryError, st)) \<and>
   (path_exists ev d \<and> path_is_dir ev d \<longrightarrow>
      fst (scan_directory ev cancel_req t_start t_end st d) = None \<and>
      stat_start_time (stats (snd (scan_directory ev cancel_req t_start t_end st d)))
        = Some t_start)"
  by (simp add: scan_directory_def Let_def run_tasks_start_time)

theorem scan_directory_path_errors_witness:
  "scan_directory sample_env (\<lambda>k. False) 1 2 sample_extractor ''nowhere''
     = (Some FileNotFoundError, sample_extractor) \<and>
   scan_directory sample_env (\<lambda>k. False) 1 2 sample_extractor ''proj/a.txt''
     = (Some NotADirectoryError, sample_extractor) \<and>
   fst (scan_directory sample_env (\<lambda>k. False) 1 2 sample_extractor ''proj'') = None \<and>
   stat_start_time (stats (snd (scan_directory sample_env (\<lambda>k. False) 1 2 sample_extractor ''proj'')))
     = Some 1"
  using scan_directory_path_errors [of sample_env "''nowhere''" "\<lambda>k. False" 1 2 sample_extractor]
    scan_directory_path_errors [of sample_env "''proj/a.txt''" "\<lambda>k. False" 1 2 sample_extractor]
    scan_directory_path_errors [of sample_env "''proj''" "\<lambda>k. False" 1 2 sample_extractor]
  by (simp add: sample_env_def)

section \<open>Matching line by line\<close>

lemma split_on_nonempty: "split_on sep s \<noteq> []"
  by (induction s) (auto split: list.splits)

lemma split_on_no_sep: "l \<in> set (split_on sep s) \<Longrightarrow> sep \<notin> set l"
proof (induction s arbitrary: l)
  case Nil
  then show ?case by simp
next
  case (Cons c cs)
  show ?case
  proof (cases "c = sep")
    case True
    with Cons show ?thesis by auto
  next
    case False
    obtain l' ls' where sp: "split_on sep cs = l' # ls'"
      using split_on_nonempty [of sep cs] by (cases "split_on sep cs") auto
    with Cons.prems False have "l = c # l' \<or> l \<in> set ls'" by simp
    then show ?thesis
    proof
      assume "l = c # l'"
      moreover have "sep \<notin> set l'" using Cons.IH [of l'] sp by simp
      ultimately show ?thesis using False by auto
    next
      assume "l \<in> set ls'"
      then show ?thesis using Cons.IH [of l] sp by simp
    qed
  qed
qed

lemma set_slice: "set (slice l s e) \<subseteq> set l"
  unfolding slice_def using set_take_subset set_drop_subset by fast

lemma match_lines_mem:
  "(t, n) \<in> set (match_lines cp k ls) \<Longrightarrow>
   k \<le> n \<and> n < k + length ls \<and>
   (\<exists>s e. (s, e) \<in> set (cp (ls ! (n - k))) \<and> t = slice (ls ! (n - k)) s e)"
proof (induction ls arbitrary: k)
  case Nil
  then show ?case by simp
next
  case (Cons l ls)
  from Cons.prems have
    "(t, n) \<in> set (map (\<lambda>(s, e). (slice l s e, k)) (cp l)) \<or>
     (t, n) \<in> set (match_lines cp (Suc k) ls)" by simp
  then show ?case
  proof
    assume "(t, n) \<in> set (map (\<lambda>(s, e). (slice l s e, k)) (cp l))"
    then show ?thesis by fastforce
  next
    assume "(t, n) \<in> set (match_lines cp (Suc k) ls)"
    from Cons.IH [OF this] obtain s e where
      b: "Suc k \<le> n" "n < Suc k + length ls"
      and se: "(s, e) \<in> set (cp (ls ! (n - Suc k)))" "t = slice (ls ! (n - Suc k)) s e"
      by blast
    from b have "(l # ls) ! (n - k) = ls ! (n - Suc k)"
      by (simp add: nth_Cons')
    with b se show ?thesis by auto
  qed
qed

lemma map_snd_const:
  "map snd (map (\<lambda>(s, e). (f s e, k)) xs) = replicate (length xs) k"
  by (induction xs) auto

lemma match_lines_sorted: "sorted (map snd (match_lines cp k ls))"
proof (induction ls arbitrary: k)
  case Nil
  then show ?case by simp
next
  case (Cons l ls)
  have here: "map snd (map (\<lambda>(s, e). (slice l s e, k)) (cp l)) = replicate (length (cp l)) k"
    by (rule map_snd_const)
  have later: "k \<le> n" if "n \<in> set (map snd (match_lines cp (Suc k) ls))" for n
  proof -
    from that obtain t where "(t, n) \<in> set (match_lines cp (Suc k) ls)" by auto
    from match_lines_mem [OF this] show ?thesis by simp
  qed
  show ?case
    using Cons.IH [of "Suc k"] later
    by (auto simp: sorted_append here simp del: map_map)
qed

lemma mem_dict_set: "x \<in> set (dict_set d k v) \<Longrightarrow> x \<in> set d \<or> x = (k, v)"
  by (induction d) (auto split: if_splits)

lemma scan_patterns_entries:
  "scan_patterns st ls cps acc = Inr fr \<Longrightarrow> (name, ms) \<in> set fr \<Longrightarrow>
   (name, ms) \<in> set acc \<or> (\<exists>cp. (name, cp) \<in> set cps \<and> ms = match_lines cp 1 ls)"
proof (induction cps arbitrary: acc)
  case Nil
  then show ?case by simp
next
  case (Cons a cps)
  obtain k cp where a: "a = (k, cp)" by (cases a)
  show ?case
  proof (cases "scan_cancelled st")
    case True
    with Cons.prems a show ?thesis by simp
  next
    case False
    note nc = this
    show ?thesis
    proof (cases "map_of (patterns st) k")
      case None
      with Cons.prems a nc show ?thesis by simp
    next
      case (Some info)
      show ?thesis
      proof (cases "is_enabled info")
        case False
        with Cons.prems a nc Some have "scan_patterns st ls cps acc = Inr fr" by simp
        from Cons.IH [OF this Cons.prems(2)] a show ?thesis by auto
      next
        case True
        define acc' where "acc' = (if match_lines cp 1 ls \<noteq> []
          then dict_set acc k (match_lines cp 1 ls) else acc)"
        from Cons.prems a nc Some True have "scan_patterns st ls cps acc' = Inr fr"
          by (auto simp: acc'_def Let_def split: if_splits)
        from Cons.IH [OF this Cons.prems(2)]
        have "(name, ms) \<in> set acc' \<or> (\<exists>cp. (name, cp) \<in> set cps \<and> ms = match_lines cp 1 ls)" .
        moreover have "(name, ms) \<in> set acc \<or> (name, ms) = (k, match_lines cp 1 ls)"
          if "(name, ms) \<in> set acc'"
          using that mem_dict_set [of "(name, ms)" acc k "match_lines cp 1 ls"]
          by (auto simp: acc'_def split: if_splits)
        ultimately show ?thesis using a by auto
      qed
    qed
  qed
qed

text \<open>
  Claim C3. Whatever the compiled patterns are (they are arbitrary functions from a line
  to spans, so also patterns compiled with \<open>re.DOTALL\<close>), every entry that
  \<open>scan_file\<close> returns was produced line by line: each matched text is a slice of one
  line of the content split at \<open>\n\<close> and so contains no \<open>\n\<close>, its line number is
  the 1-based position of that line, and the line numbers within the list of one pattern
  are in ascending order.
\<close>

theorem matches_stay_within_lines:
  assumes "fst (scan_file ev st p) = Inr fr" and "(name, ms) \<in> set fr"
  shows "sorted (map snd ms) \<and>
    (\<forall>(t, n)\<in>set ms.
       LF \<notin> set t \<and> 1 \<le> n \<and> n \<le> length (split_on LF (fst (read_file_content ev st p))) \<and>
       (\<exists>cp s e. (name, cp) \<in> set (compiled_patterns st) \<and>
          (s, e) \<in> set (cp (split_on LF (fst (read_file_content ev st p)) ! (n - 1))) \<and>
          t = slice (split_on LF (fst (read_file_content ev st p)) ! (n - 1)) s e))"
proof -
  define ls where "ls = split_on LF (fst (read_file_content ev st p))"
  have "\<exists>st2. scan_patterns st2 ls (compiled_patterns st) [] = Inr fr"
    using scan_file_cases [of st ev p] assms by (auto simp: ls_def)
  then obtain st2 where "scan_patterns st2 ls (compiled_patterns st) [] = Inr fr" ..
  from scan_patterns_entries [OF this assms(2)]
  obtain cp where cp: "(name, cp) \<in> set (compiled_patterns st)" "ms = match_lines cp 1 ls"
    by auto
  have one: "sorted (map snd ms)"
    unfolding cp(2) by (rule match_lines_sorted)
  have two: "LF \<notin> set t \<and> 1 \<le> n \<and> n \<le> length ls \<and>
       (\<exists>cp s e. (name, cp) \<in> set (compiled_patterns st) \<and>
          (s, e) \<in> set (cp (ls ! (n - 1))) \<and> t = slice (ls ! (n - 1)) s e)"
    if "(t, n) \<in> set ms" for t n
  proof -
    from that cp(2) have "(t, n) \<in> set (match_lines cp 1 ls)" by simp
    from match_lines_mem [OF this] obtain s e where
      b: "1 \<le> n" "n < 1 + length ls"
      and se: "(s, e) \<in> set (cp (ls ! (n - 1)))" "t = slice (ls ! (n - 1)) s e"
      by blast
    from b have "ls ! (n - 1) \<in> set ls" by simp
    then have "LF \<notin> set (ls ! (n - 1))"
      unfolding ls_def by (rule split_on_no_sep)
    with set_slice [of "ls ! (n - 1)" s e] se(2) have "LF \<notin> set t" by auto
    with b se cp(1) show ?thesis by auto
  qed
  from one two show ?thesis unfolding ls_def by blast
qed

lemma sample_scan_a:
  "fst (scan_file sample_env sample_extractor ''proj/a.txt'') =
     Inr [(''at'', [([64], 2), ([64], 2)])]"
  by code_simp

theorem matches_stay_within_lines_witness:
  "fst (scan_file sample_env sample_extractor ''proj/a.txt'') =
     Inr [(''at'', [([64], 2), ([64], 2)])] \<and>
   sorted (map snd [([64], 2::nat), ([64::nat], 2)]) \<and>
   list_all (\<lambda>(t, n). LF \<notin> set t \<and> 1 \<le> n \<and>
       n \<le> length (split_on LF (fst (read_file_content sample_env sample_extractor ''proj/a.txt''))))
     [([64], 2), ([64], 2)]"
  using sample_scan_a
    matches_stay_within_lines [OF sample_scan_a, of "''at''" "[([64], 2), ([64], 2)]"]
  by (simp add: list_all_iff)

section \<open>Disabled rules\<close>

lemma map_of_dict_del: "map_of (dict_del d n) k = (if k = n then None else map_of d k)"
  by (induction d) (auto simp: dict_del_def)

lemma drop_rule_simps:
  "scan_cancelled (drop_rule n st) = scan_cancelled st"
  "patterns (drop_rule n st) = dict_del (patterns st) n"
  "compiled_patterns (drop_rule n st) = dict_del (compiled_patterns st) n"
  "results (drop_rule n st) = results st"
  "scanned_files (drop_rule n st) = scanned_files st"
  "skipped_files (drop_rule n st) = skipped_files st"
  "error_files (drop_rule n st) = error_files st"
  "is_scanning (drop_rule n st) = is_scanning st"
  "stats (drop_rule n st) = stats st"
  by (simp_all add: drop_rule_def)

lemma drop_rule_updates:
  "drop_rule n (st\<lparr>skipped_files := a\<rparr>) = (drop_rule n st)\<lparr>skipped_files := a\<rparr>"
  "drop_rule n (st\<lparr>scanned_files := b\<rparr>) = (drop_rule n st)\<lparr>scanned_files := b\<rparr>"
  "drop_rule n (st\<lparr>error_files := c\<rparr>) = (drop_rule n st)\<lparr>error_files := c\<rparr>"
  "drop_rule n (st\<lparr>results := d\<rparr>) = (drop_rule n st)\<lparr>results := d\<rparr>"
  "drop_rule n (st\<lparr>stats := e\<rparr>) = (drop_rule n st)\<lparr>stats := e\<rparr>"
  "drop_rule n (st\<lparr>is_scanning := f\<rparr>) = (drop_rule n st)\<lparr>is_scanning := f\<rparr>"
  "drop_rule n (st\<lparr>scan_cancelled := g\<rparr>) = (drop_rule n st)\<lparr>scan_cancelled := g\<rparr>"
  by (simp_all add: drop_rule_def)

lemma scan_patterns_drop_rule:
  assumes "map_of (patterns st) n = Some info" and "\<not> is_enabled info"
  shows "scan_patterns (drop_rule n st) ls (dict_del cps n) acc = scan_patterns st ls cps acc"
proof (induction cps arbitrary: acc)
  case Nil
  then show ?case by (simp add: dict_del_def)
next
  case (Cons a cps)
  obtain k cp where a: "a = (k, cp)" by (cases a)
  show ?case
  proof (cases "k = n")
    case True
    have "dict_del (a # cps) n = dict_del cps n" using a True by (simp add: dict_del_def)
    moreover have "scan_patterns st ls (a # cps) acc = scan_patterns st ls cps acc"
      using a True assms by (simp add: scan_patterns_cancelled)
    ultimately show ?thesis using Cons.IH by simp
  next
    case False
    have d: "dict_del ((k, cp) # cps) n = (k, cp) # dict_del cps n"
      using False by (simp add: dict_del_def)
    have m: "map_of (patterns (drop_rule n st)) k = map_of (patterns st) k"
      using False by (simp add: drop_rule_simps map_of_dict_del)
    show ?thesis
      unfolding a d using Cons.IH m
      by (simp add: drop_rule_simps Let_def split: option.splits)
  qed
qed

lemma try_encodings_drop_rule:
  "try_encodings ev (drop_rule n st) p encs =
     (fst (try_encodings ev st p encs), drop_rule n (snd (try_encodings ev st p encs)))"
  by (induction encs) (auto simp: drop_rule_simps drop_rule_updates split: attempt.splits)

lemma read_file_content_drop_rule:
  "read_file_content ev (drop_rule n st) p =
     (fst (read_file_content ev st p), drop_rule n (snd (read_file_content ev st p)))"
  by (simp add: read_file_content_def try_encodings_drop_rule)

lemma scan_file_drop_rule:
  assumes "map_of (patterns st) n = Some info" and "\<not> is_enabled info"
  shows "scan_file ev (drop_rule n st) p =
     (fst (scan_file ev st p), drop_rule n (snd (scan_file ev st p)))"
proof -
  obtain t st1 where rf: "read_file_content ev st p = (t, st1)"
    by (cases "read_file_content ev st p")
  have pat: "patterns (st1\<lparr>scanned_files := scanned_files st1 @ [p]\<rparr>) = patterns st"
    using read_file_content_frame [OF rf] by simp
  have cps: "compiled_patterns st1 = compiled_patterns st"
    using read_file_content_frame [OF rf] by simp
  have sp: "scan_patterns (drop_rule n (st1\<lparr>scanned_files := scanned_files st1 @ [p]\<rparr>)) ls
      (dict_del (compiled_patterns st) n) [] =
    scan_patterns (st1\<lparr>scanned_files := scanned_files st1 @ [p]\<rparr>) ls (compiled_patterns st) []"
    for ls
    by (rule scan_patterns_drop_rule [where info = info]) (simp_all add: pat assms)
  show ?thesis
    by (simp add: scan_file_def read_file_content_drop_rule rf drop_rule_simps
        drop_rule_updates [symmetric] Let_def sp cps)
qed

lemma merge_file_results_drop_rule:
  "merge_file_results (drop_rule n st) p fr = drop_rule n (merge_file_results st p fr)"
  by (simp add: merge_file_results_def drop_rule_simps drop_rule_updates Let_def
      split: prod.splits)

lemma cancel_scan_drop_rule: "cancel_scan (drop_rule n st) = drop_rule n (cancel_scan st)"
  by (simp add: cancel_scan_def drop_rule_updates)

lemma run_tasks_drop_rule:
  assumes "\<not> is_enabled info"
  shows "map_of (patterns st) n = Some info \<Longrightarrow>
    run_tasks ev c k fs (drop_rule n st) = drop_rule n (run_tasks ev c k fs st)"
proof (induction fs arbitrary: k st)
  case Nil
  then show ?case by simp
next
  case (Cons p fs)
  define st0 where "st0 = (if c k then cancel_scan st else st)"
  obtain r st1 where sf: "scan_file ev st0 p = (r, st1)" by (cases "scan_file ev st0 p")
  have p0: "map_of (patterns st0) n = Some info"
    using Cons.prems by (simp add: st0_def cancel_scan_def)
  have d0: "(if c k then cancel_scan (drop_rule n st) else drop_rule n st) = drop_rule n st0"
    by (simp add: st0_def cancel_scan_drop_rule)
  have sf': "scan_file ev (drop_rule n st0) p = (r, drop_rule n st1)"
    using scan_file_drop_rule [OF p0 assms, of ev p] sf by simp
  have p1: "map_of (patterns st1) n = Some info"
    using scan_file_frame [OF sf] p0 by simp
  define st2 where "st2 = (case r of
        Inr file_results \<Rightarrow> merge_file_results st1 p file_results
      | Inl e \<Rightarrow> st1\<lparr>error_files := error_files st1 @ [(p, ExnMessage e)]\<rparr>)"
  have d2: "(case r of
        Inr file_results \<Rightarrow> merge_file_results (drop_rule n st1) p file_results
      | Inl e \<Rightarrow> (drop_rule n st1)\<lparr>error_files := error_files (drop_rule n st1) @ [(p, ExnMessage e)]\<rparr>)
      = drop_rule n st2"
    by (cases r) (simp_all add: st2_def merge_file_results_drop_rule drop_rule_simps
        drop_rule_updates)
  have p2: "map_of (patterns st2) n = Some info"
    using p1 by (cases r) (simp_all add: st2_def merge_file_results_frame)
  have lhs: "run_tasks ev c k (p # fs) (drop_rule n st) =
      (if scan_cancelled st1 then drop_rule n st1
       else run_tasks ev c (Suc k) fs (drop_rule n st2))"
    by (simp add: d0 sf' d2 drop_rule_simps)
  have rhs: "run_tasks ev c k (p # fs) st =
      (if scan_cancelled st1 then st1 else run_tasks ev c (Suc k) fs st2)"
    by (simp add: st0_def [symmetric] sf st2_def)
  show ?case
    unfolding lhs rhs using Cons.IH [OF p2] by simp
qed


lemma scan_directory_drop_rule:
  assumes "map_of (patterns st) n = Some info" and "\<not> is_enabled info"
  shows "scan_directory ev c t0 t1 (drop_rule n st) d =
     (fst (scan_directory ev c t0 t1 st d), drop_rule n (snd (scan_directory ev c t0 t1 st d)))"
proof -
  define st2 where "st2 = st\<lparr>is_scanning := True, scan_cancelled := False,
      stats := (stats st)\<lparr>stat_start_time := Some t0\<rparr>,
      stats := (stats st)\<lparr>stat_start_time := Some t0,
                           stat_total_files := length (get_all_files ev d)\<rparr>\<rparr>"
  have p2: "map_of (patterns st2) n = Some info" using assms(1) by (simp add: st2_def)
  have d2: "(drop_rule n st)\<lparr>is_scanning := True, scan_cancelled := False,
      stats := (stats st)\<lparr>stat_start_time := Some t0\<rparr>,
      stats := (stats st)\<lparr>stat_start_time := Some t0,
                           stat_total_files := length (get_all_files ev d)\<rparr>\<rparr> = drop_rule n st2"
    by (simp add: st2_def drop_rule_def)
  show ?thesis
    using run_tasks_drop_rule [OF assms(2) p2, of ev c 0 "get_all_files ev d"]
    by (simp add: scan_directory_def Let_def drop_rule_simps d2 st2_def [symmetric]
        drop_rule_updates)
qed

lemma map_filter_dict_del:
  "List.map_filter (\<lambda>r. map_option (Pair (fst r)) (f r)) (dict_del pats n) =
   dict_del (List.map_filter (\<lambda>r. map_option (Pair (fst r)) (f r)) pats) n"
proof (induction pats)
  case Nil
  then show ?case by (simp add: dict_del_def)
next
  case (Cons r pats)
  from Cons show ?case
    by (cases "f r") (auto simp: dict_del_def)
qed

lemma distinct_dict_del: "distinct (map fst d) \<Longrightarrow> distinct (map fst (dict_del d n))"
  unfolding dict_del_def by (rule distinct_map_filter)

lemma init_closed_form:
  "distinct (map fst pats) \<Longrightarrow>
   fst (init ev pats) =
     \<lparr>patterns = pats,
      compiled_patterns =
        List.map_filter (\<lambda>r. map_option (Pair (fst r)) (re_compile ev (regex (snd r)))) pats,
      results = [], scanned_files = [], skipped_files = [], error_files = [],
      is_scanning = False, scan_cancelled = False, stats = init_stats\<rparr>"
  using compile_patterns_closed_form [of pats "[]" ev "[]"]
  by (simp add: init_def)

lemma init_drop_rule:
  "distinct (map fst pats) \<Longrightarrow>
   fst (init ev (dict_del pats n)) = drop_rule n (fst (init ev pats))"
  by (simp add: init_closed_form distinct_dict_del map_filter_dict_del drop_rule_def)

lemma scan_patterns_names:
  "scan_patterns st ls cps acc = Inr fr \<Longrightarrow> name \<in> fst ` set fr \<Longrightarrow>
   name \<in> fst ` set acc \<or> (\<exists>info. map_of (patterns st) name = Some info \<and> is_enabled info)"
proof (induction cps arbitrary: acc)
  case Nil
  then show ?case by simp
next
  case (Cons a cps)
  obtain k cp where a: "a = (k, cp)" by (cases a)
  show ?case
  proof (cases "scan_cancelled st")
    case True
    with Cons.prems a show ?thesis by simp
  next
    case False
    note nc = this
    show ?thesis
    proof (cases "map_of (patterns st) k")
      case None
      with Cons.prems a nc show ?thesis by simp
    next
      case (Some info)
      show ?thesis
      proof (cases "is_enabled info")
        case False
        with Cons.prems a nc Some have "scan_patterns st ls cps acc = Inr fr" by simp
        from Cons.IH [OF this Cons.prems(2)] show ?thesis .
      next
        case True
        define acc' where "acc' = (if match_lines cp 1 ls \<noteq> []
          then dict_set acc k (match_lines cp 1 ls) else acc)"
        from Cons.prems a nc Some True have "scan_patterns st ls cps acc' = Inr fr"
          by (auto simp: acc'_def Let_def split: if_splits)
        from Cons.IH [OF this Cons.prems(2)]
        have "name \<in> fst ` set acc' \<or>
          (\<exists>info. map_of (patterns st) name = Some info \<and> is_enabled info)" .
        moreover have "name \<in> fst ` set acc \<or> name = k" if "name \<in> fst ` set acc'"
        proof -
          from that obtain ms where "(name, ms) \<in> set acc'" by auto
          then have "(name, ms) \<in> set acc \<or> (name, ms) = (k, match_lines cp 1 ls)"
            using mem_dict_set [of "(name, ms)" acc k "match_lines cp 1 ls"]
            by (auto simp: acc'_def split: if_splits)
          then show ?thesis by force
        qed
        ultimately show ?thesis using Some True by auto
      qed
    qed
  qed
qed

lemma scan_file_scanned:
  assumes "fst (scan_file ev st p) = Inr fr" and "fr \<noteq> []"
  shows "\<exists>t. scan_patterns (st\<lparr>scanned_files := scanned_files st @ [p]\<rparr>) (split_on LF t)
      (compiled_patterns st) [] = Inr fr"
  using scan_file_cases [of st ev p] assms by auto

lemma scan_file_names:
  assumes "fst (scan_file ev st p) = Inr fr" and "name \<in> fst ` set fr"
  shows "\<exists>info. map_of (patterns st) name = Some info \<and> is_enabled info"
proof -
  from assms(2) have "fr \<noteq> []" by auto
  from scan_file_scanned [OF assms(1) this] obtain t where
    "scan_patterns (st\<lparr>scanned_files := scanned_files st @ [p]\<rparr>) (split_on LF t)
      (compiled_patterns st) [] = Inr fr" ..
  from scan_patterns_names [OF this assms(2)] show ?thesis by simp
qed

lemma warned_dict_del:
  "map fst (filter Q (dict_del pats n)) = filter (\<lambda>x. x \<noteq> n) (map fst (filter Q pats))"
  by (induction pats) (auto simp: dict_del_def)

lemma warned_iff:
  assumes "distinct (map fst pats)" and "(n, info) \<in> set pats"
  shows "(n \<in> set (map fst (filter (\<lambda>r. re_compile ev (regex (snd r)) = None) pats))) =
     (re_compile ev (regex info) = None)"
proof
  assume "n \<in> set (map fst (filter (\<lambda>r. re_compile ev (regex (snd r)) = None) pats))"
  then obtain r where r: "r \<in> set pats" "re_compile ev (regex (snd r)) = None" "fst r = n"
    by auto
  then have "(n, snd r) \<in> set pats" by (cases r) auto
  from distinct_fst_unique [OF assms(1) this assms(2)] r(2)
  show "re_compile ev (regex info) = None" by simp
next
  assume "re_compile ev (regex info) = None"
  with assms(2) have "(n, info) \<in> set (filter (\<lambda>r. re_compile ev (regex (snd r)) = None) pats)"
    by simp
  then have "fst (n, info) \<in> fst ` set (filter (\<lambda>r. re_compile ev (regex (snd r)) = None) pats)"
    by (rule imageI)
  then show "n \<in> set (map fst (filter (\<lambda>r. re_compile ev (regex (snd r)) = None) pats))"
    by simp
qed

lemma dict_del_replace:
  "dict_del (map (\<lambda>r. if fst r = n then (n, m) else r) d) n = dict_del d n"
  by (induction d) (auto simp: dict_del_def)

lemma scan_file_any_matcher:
  assumes "map_of (patterns st) n = Some info" and "\<not> is_enabled info"
  shows "fst (scan_file ev
      (st\<lparr>compiled_patterns := map (\<lambda>r. if fst r = n then (n, m) else r) (compiled_patterns st)\<rparr>) p)
    = fst (scan_file ev st p)"
proof -
  define st' where "st' =
    st\<lparr>compiled_patterns := map (\<lambda>r. if fst r = n then (n, m) else r) (compiled_patterns st)\<rparr>"
  have pat': "map_of (patterns st') n = Some info" using assms(1) by (simp add: st'_def)
  have same: "drop_rule n st' = drop_rule n st"
    by (simp add: drop_rule_def st'_def dict_del_replace)
  have "fst (scan_file ev st' p) = fst (scan_file ev (drop_rule n st') p)"
    using scan_file_drop_rule [OF pat' assms(2), of ev p] by simp
  also have "\<dots> = fst (scan_file ev st p)"
    unfolding same using scan_file_drop_rule [OF assms, of ev p] by simp
  finally show ?thesis unfolding st'_def .
qed

text \<open>
  Claim C9 says of a disabled rule that it is filtered out before the match loop rather
  than compiled. That part does not hold: \<open>__init__\<close> compiles every rule without
  looking at \<open>enabled\<close>. The disabled rule \<open>off\<close> of the sample has a compiled entry, and
  a disabled rule with a regex that does not compile draws the load-time warning, which
  the rule set without it does not.
\<close>

theorem disabled_rule_is_compiled:
  "map_of sample_patterns ''off'' = Some (rule ''@'' (Some False)) \<and>
   enabled (rule ''@'' (Some False)) = Some False \<and>
   map fst (compiled_patterns (fst (init sample_env sample_patterns))) = [''at'', ''off''] \<and>
   enabled (rule ''('' (Some False)) = Some False \<and>
   snd (init sample_env [(''off'', rule ''('' (Some False))]) = [''off''] \<and>
   snd (init sample_env (dict_del [(''off'', rule ''('' (Some False))] ''off'')) = []"
  by (simp add: init_def sample_patterns_def rule_def sample_re_compile_simps dict_del_def)

text \<open>
  Claim C9, amended. Let a rule set with distinct names hold a rule \<open>n\<close> whose \<open>enabled\<close>
  flag is false. Scanning gives the same outcome as with the rule absent from the set:
  \<open>scan_file\<close> returns the same mapping and \<open>scan_directory\<close> the same results, lists
  and statistics (the objects differ only in the dropped rule), and the mapping returned
  has no entry under \<open>n\<close>. The rule is not filtered out at load time: it is compiled as
  any other rule, with a compiled entry exactly when its regex compiles and the warning
  exactly when it does not, and the rule set without it draws the same warnings but this
  one. It is passed over inside the loop over the compiled patterns: whatever its compiled
  pattern is, \<open>scan_file\<close> returns the same mapping.
\<close>

theorem disabled_rule_same_as_absent:
  assumes "distinct (map fst pats)" and "map_of pats n = Some info"
    and "enabled info = Some False"
  shows
    "fst (init ev (dict_del pats n)) = drop_rule n (fst (init ev pats)) \<and>
     scan_file ev (fst (init ev (dict_del pats n))) p =
       (fst (scan_file ev (fst (init ev pats)) p),
        drop_rule n (snd (scan_file ev (fst (init ev pats)) p))) \<and>
     (\<forall>fr. fst (scan_file ev (fst (init ev pats)) p) = Inr fr \<longrightarrow> n \<notin> fst ` set fr) \<and>
     scan_directory ev c t0 t1 (fst (init ev (dict_del pats n))) d =
       (fst (scan_directory ev c t0 t1 (fst (init ev pats)) d),
        drop_rule n (snd (scan_directory ev c t0 t1 (fst (init ev pats)) d))) \<and>
     results (snd (scan_directory ev c t0 t1 (fst (init ev (dict_del pats n))) d)) =
       results (snd (scan_directory ev c t0 t1 (fst (init ev pats)) d)) \<and>
     (\<forall>m. ((n, m) \<in> set (compiled_patterns (fst (init ev pats)))) =
          (re_compile ev (regex info) = Some m)) \<and>
     (n \<in> set (snd (init ev pats))) = (re_compile ev (regex info) = None) \<and>
     snd (init ev (dict_del pats n)) = filter (\<lambda>x. x \<noteq> n) (snd (init ev pats)) \<and>
     (\<forall>m. fst (scan_file ev
            ((fst (init ev pats))\<lparr>compiled_patterns :=
               map (\<lambda>r. if fst r = n then (n, m) else r)
                 (compiled_patterns (fst (init ev pats)))\<rparr>) p)
          = fst (scan_file ev (fst (init ev pats)) p))"
proof -
  have dis: "\<not> is_enabled info" using assms(3) by (simp add: is_enabled_def)
  have pat: "map_of (patterns (fst (init ev pats))) n = Some info"
    using assms(2) by (simp add: patterns_init)
  have mem: "(n, info) \<in> set pats" using assms(2) by (rule map_of_SomeD)
  note i = init_drop_rule [OF assms(1), of ev n]
  have a: "scan_file ev (fst (init ev (dict_del pats n))) p =
       (fst (scan_file ev (fst (init ev pats)) p),
        drop_rule n (snd (scan_file ev (fst (init ev pats)) p)))"
    unfolding i by (rule scan_file_drop_rule [OF pat dis])
  have b: "\<forall>fr. fst (scan_file ev (fst (init ev pats)) p) = Inr fr \<longrightarrow> n \<notin> fst ` set fr"
  proof (intro allI impI notI)
    fix fr
    assume "fst (scan_file ev (fst (init ev pats)) p) = Inr fr" and "n \<in> fst ` set fr"
    from scan_file_names [OF this] pat dis show False by auto
  qed
  have c: "scan_directory ev c t0 t1 (fst (init ev (dict_del pats n))) d =
       (fst (scan_directory ev c t0 t1 (fst (init ev pats)) d),
        drop_rule n (snd (scan_directory ev c t0 t1 (fst (init ev pats)) d)))"
    unfolding i by (rule scan_directory_drop_rule [OF pat dis])
  have d: "results (snd (scan_directory ev c t0 t1 (fst (init ev (dict_del pats n))) d)) =
       results (snd (scan_directory ev c t0 t1 (fst (init ev pats)) d))"
    unfolding c by (simp add: drop_rule_simps)
  have e: "\<forall>m. ((n, m) \<in> set (compiled_patterns (fst (init ev pats)))) =
          (re_compile ev (regex info) = Some m)"
  proof
    fix m
    have "((n, m) \<in> set (compiled_patterns (fst (init ev pats)))) =
        (\<exists>j. (n, j) \<in> set pats \<and> re_compile ev (regex j) = Some m)"
      unfolding compiled_patterns_init [OF assms(1)] by (rule mem_compiled_iff)
    also have "\<dots> = (re_compile ev (regex info) = Some m)"
    proof
      assume "\<exists>j. (n, j) \<in> set pats \<and> re_compile ev (regex j) = Some m"
      then obtain j where j: "(n, j) \<in> set pats" "re_compile ev (regex j) = Some m" by blast
      from distinct_fst_unique [OF assms(1) j(1) mem] j(2)
      show "re_compile ev (regex info) = Some m" by simp
    next
      assume "re_compile ev (regex info) = Some m"
      with mem show "\<exists>j. (n, j) \<in> set pats \<and> re_compile ev (regex j) = Some m" by blast
    qed
    finally show "((n, m) \<in> set (compiled_patterns (fst (init ev pats)))) =
          (re_compile ev (regex info) = Some m)" .
  qed
  have f: "(n \<in> set (snd (init ev pats))) = (re_compile ev (regex info) = None)"
    unfolding warned_init [OF assms(1)] by (rule warned_iff [OF assms(1) mem])
  have g: "snd (init ev (dict_del pats n)) = filter (\<lambda>x. x \<noteq> n) (snd (init ev pats))"
    unfolding warned_init [OF assms(1)] warned_init [OF distinct_dict_del [OF assms(1)]]
    by (rule warned_dict_del)
  have h: "\<forall>m. fst (scan_file ev
            ((fst (init ev pats))\<lparr>compiled_patterns :=
               map (\<lambda>r. if fst r = n then (n, m) else r)
                 (compiled_patterns (fst (init ev pats)))\<rparr>) p)
          = fst (scan_file ev (fst (init ev pats)) p)"
    by (intro allI scan_file_any_matcher [OF pat dis])
  show ?thesis by (intro conjI i a b c d e f g h)
qed

lemma sample_scan_results:
  "results (snd (scan_directory sample_env (\<lambda>k. False) 1 2 sample_extractor ''proj'')) =
     [(''proj/a.txt'', [(''at'', [([64], 2), ([64], 2)])]),
      (''proj/sub/notes'', [(''at'', [([64], 1)])])]"
  by code_simp

theorem disabled_rule_same_as_absent_witness:
  "distinct (map fst sample_patterns) \<and>
   map_of sample_patterns ''off'' = Some (rule ''@'' (Some False)) \<and>
   enabled (rule ''@'' (Some False)) = Some False \<and>
   results (snd (scan_directory sample_env (\<lambda>k. False) 1 2
       (fst (init sample_env (dict_del sample_patterns ''off''))) ''proj'')) =
     [(''proj/a.txt'', [(''at'', [([64], 2), ([64], 2)])]),
      (''proj/sub/notes'', [(''at'', [([64], 1)])])] \<and>
   snd (init sample_env (dict_del sample_patterns ''off'')) =
     filter (\<lambda>x. x \<noteq> ''off'') (snd (init sample_env sample_patterns))"
proof -
  have m: "map_of sample_patterns ''off'' = Some (rule ''@'' (Some False))"
    by (simp add: sample_patterns_def)
  have e: "enabled (rule ''@'' (Some False)) = Some False"
    by (simp add: rule_def)
  note t = disabled_rule_same_as_absent [OF sample_patterns_distinct m e,
      of sample_env "''proj/a.txt''" "\<lambda>k. False" 1 2 "''proj''"]
  have "results (snd (scan_directory sample_env (\<lambda>k. False) 1 2
       (fst (init sample_env (dict_del sample_patterns ''off''))) ''proj'')) =
     results (snd (scan_directory sample_env (\<lambda>k. False) 1 2
       (fst (init sample_env sample_patterns)) ''proj''))"
    by (rule t [THEN conjunct2, THEN conjunct2, THEN conjunct2, THEN conjunct2,
          THEN conjunct1])
  also have "\<dots> = [(''proj/a.txt'', [(''at'', [([64], 2), ([64], 2)])]),
      (''proj/sub/notes'', [(''at'', [([64], 1)])])]"
    using sample_scan_results by (simp only: sample_extractor_def)
  finally have r: "results (snd (scan_directory sample_env (\<lambda>k. False) 1 2
       (fst (init sample_env (dict_del sample_patterns ''off''))) ''proj'')) =
     [(''proj/a.txt'', [(''at'', [([64], 2), ([64], 2)])]),
      (''proj/sub/notes'', [(''at'', [([64], 1)])])]" .
  have w: "snd (init sample_env (dict_del sample_patterns ''off'')) =
     filter (\<lambda>x. x \<noteq> ''off'') (snd (init sample_env sample_patterns))"
    by (rule t [THEN conjunct2, THEN conjunct2, THEN conjunct2, THEN conjunct2,
          THEN conjunct2, THEN conjunct2, THEN conjunct2, THEN conjunct1])
  show ?thesis by (intro conjI sample_patterns_distinct m e r w)
qed

section \<open>What a scan adds to the object\<close>

lemma map_fst_dict_set:
  "map fst (dict_set d k v) = (if k \<in> set (map fst d) then map fst d else map fst d @ [k])"
proof (induction d)
  case Nil
  then show ?case by simp
next
  case (Cons a d)
  obtain k' v' where a: "a = (k', v')" by (cases a)
  from Cons show ?case by (cases "k' = k") (simp_all add: a)
qed

lemma keys_dict_set: "fst ` set (dict_set d k v) = insert k (fst ` set d)"
proof -
  have "set (map fst (dict_set d k v)) = insert k (set (map fst d))"
    unfolding map_fst_dict_set by auto
  then show ?thesis by simp
qed



















lemma run_tasks_total_files:
  "stat_total_files (stats (run_tasks ev c k fs st)) = stat_total_files (stats st)"
proof (induction fs arbitrary: k st)
  case Nil
  then show ?case by simp
next
  case (Cons p fs)
  define st0 where "st0 = (if c k then cancel_scan st else st)"
  obtain r st1 where sf: "scan_file ev st0 p = (r, st1)" by (cases "scan_file ev st0 p")
  have a: "stat_total_files (stats st0) = stat_total_files (stats st)"
    by (simp add: st0_def cancel_scan_def)
  have b: "stat_total_files (stats st1) = stat_total_files (stats st0)"
    using scan_file_frame [OF sf] by simp
  show ?case
  proof (cases "scan_cancelled st1")
    case True
    with sf a b show ?thesis by (simp add: st0_def [symmetric])
  next
    case False
    have "stat_total_files (stats (case r of
        Inr file_results \<Rightarrow> merge_file_results st1 p file_results
      | Inl e \<Rightarrow> st1\<lparr>error_files := error_files st1 @ [(p, ExnMessage e)]\<rparr>))
      = stat_total_files (stats st1)"
      by (cases r) (simp_all add: merge_file_results_frame)
    with False sf a b Cons.IH show ?thesis by (simp add: st0_def [symmetric])
  qed
qed










lemma init_fresh:
  "results (fst (init ev pats)) = [] \<and> scanned_files (fst (init ev pats)) = [] \<and>
   skipped_files (fst (init ev pats)) = [] \<and> error_files (fst (init ev pats)) = [] \<and>
   stats (fst (init ev pats)) = init_stats"
  by (simp add: init_def split: prod.splits)



























section \<open>One outcome per file\<close>

lemma compile_patterns_keys:
  "set (map fst (fst (compile_patterns ev pats (acc, w)))) \<subseteq> set (map fst acc) \<union> set (map fst pats)"
proof (induction pats arbitrary: acc w)
  case Nil
  then show ?case by simp
next
  case (Cons r pats)
  obtain name info where r: "r = (name, info)" by (cases r)
  show ?case
  proof (cases "re_compile ev (regex info)")
    case None
    with Cons [of acc "w @ [name]"] r show ?thesis by auto
  next
    case (Some m)
    have "set (map fst (dict_set acc name m)) = insert name (set (map fst acc))"
      using keys_dict_set [of acc name m] by simp
    with Cons [of "dict_set acc name m" w] Some r show ?thesis by auto
  qed
qed

lemma init_compiled:
  "compiled_patterns (fst (init ev pats)) = fst (compile_patterns ev pats ([], []))"
  by (cases "compile_patterns ev pats ([], [])") (simp add: init_def)

lemma init_keys:
  "set (map fst (compiled_patterns (fst (init ev pats)))) \<subseteq> set (map fst (patterns (fst (init ev pats))))"
  using compile_patterns_keys [of ev pats "[]" "[]"]
  by (simp add: init_compiled patterns_init)

lemma scan_patterns_total:
  "set (map fst cps) \<subseteq> set (map fst (patterns st)) \<Longrightarrow>
   \<exists>fr. scan_patterns st ls cps acc = Inr fr"
proof (induction cps arbitrary: acc)
  case Nil
  then show ?case by simp
next
  case (Cons a cps)
  obtain k cp where a: "a = (k, cp)" by (cases a)
  from Cons.prems a have "k \<in> set (map fst (patterns st))" by simp
  then have "map_of (patterns st) k \<noteq> None"
    by (simp add: map_of_eq_None_iff)
  then obtain info where info: "map_of (patterns st) k = Some info" by auto
  from Cons.prems have rest: "set (map fst cps) \<subseteq> set (map fst (patterns st))" by simp
  show ?case
  proof (cases "scan_cancelled st")
    case True
    then show ?thesis by (simp add: scan_patterns_cancelled)
  next
    case False
    note nc = this
    show ?thesis
    proof (cases "is_enabled info")
      case False
      with nc info a Cons.IH [OF rest, of acc] show ?thesis by simp
    next
      case True
      with nc info a
        Cons.IH [OF rest, of "if match_lines cp 1 ls \<noteq> []
          then dict_set acc k (match_lines cp 1 ls) else acc"]
      show ?thesis by (auto simp: Let_def split: if_splits)
    qed
  qed
qed

lemma scan_file_counts:
  assumes "\<not> scan_cancelled st"
    and "set (map fst (compiled_patterns st)) \<subseteq> set (map fst (patterns st))"
    and "is_text_file ev p \<Longrightarrow> read_file_content ev st p \<noteq> ([], st)"
    and "scan_file ev st p = (r, st1)"
  shows "(\<exists>fr. r = Inr fr) \<and>
    length (scanned_files st1) + length (skipped_files st1) + length (error_files st1) =
    Suc (length (scanned_files st) + length (skipped_files st) + length (error_files st))"
proof -
  have tot: "\<exists>fr. scan_patterns (st\<lparr>scanned_files := scanned_files st @ [p]\<rparr>) ls
      (compiled_patterns st) [] = Inr fr" for ls
    by (rule scan_patterns_total) (use assms(2) in simp)
  from scan_file_cases [of st ev p] assms(1,3,4) tot show ?thesis
    by (elim disjE conjE exE) auto
qed

lemma run_tasks_counts:
  assumes "\<forall>p\<in>set fs. \<forall>s. is_text_file ev p \<longrightarrow> read_file_content ev s p \<noteq> ([], s)"
    and "set (map fst (compiled_patterns st)) \<subseteq> set (map fst (patterns st))"
    and "\<not> scan_cancelled (run_tasks ev c k fs st)"
  shows "length (scanned_files (run_tasks ev c k fs st)) +
     length (skipped_files (run_tasks ev c k fs st)) +
     length (error_files (run_tasks ev c k fs st)) =
     length (scanned_files st) + length (skipped_files st) + length (error_files st) + length fs"
  using assms
proof (induction fs arbitrary: k st)
  case Nil
  then show ?case by simp
next
  case (Cons p fs)
  define st0 where "st0 = (if c k then cancel_scan st else st)"
  obtain r st1 where sf: "scan_file ev st0 p = (r, st1)" by (cases "scan_file ev st0 p")
  define st2 where "st2 = (case r of
        Inr file_results \<Rightarrow> merge_file_results st1 p file_results
      | Inl e \<Rightarrow> st1\<lparr>error_files := error_files st1 @ [(p, ExnMessage e)]\<rparr>)"
  have unf: "run_tasks ev c k (p # fs) st =
      (if scan_cancelled st1 then st1 else run_tasks ev c (Suc k) fs st2)"
    by (simp add: st0_def [symmetric] sf st2_def)
  from Cons.prems(3) unf have nc1: "\<not> scan_cancelled st1" by (auto split: if_splits)
  with scan_file_frame [OF sf] have nc0: "\<not> scan_cancelled st0" by simp
  have same0: "scanned_files st0 = scanned_files st \<and> skipped_files st0 = skipped_files st \<and>
      error_files st0 = error_files st \<and> patterns st0 = patterns st \<and>
      compiled_patterns st0 = compiled_patterns st"
    by (simp add: st0_def cancel_scan_def)
  have keys0: "set (map fst (compiled_patterns st0)) \<subseteq> set (map fst (patterns st0))"
    using Cons.prems(2) same0 by simp
  have ne: "is_text_file ev p \<Longrightarrow> read_file_content ev st0 p \<noteq> ([], st0)"
    using Cons.prems(1) by simp
  from scan_file_counts [OF nc0 keys0 ne sf] obtain fr where
    r: "r = Inr fr" and c1: "length (scanned_files st1) + length (skipped_files st1) +
      length (error_files st1) =
      Suc (length (scanned_files st0) + length (skipped_files st0) + length (error_files st0))"
    by blast
  have st2: "st2 = merge_file_results st1 p fr" by (simp add: st2_def r)
  have c2: "length (scanned_files st2) + length (skipped_files st2) + length (error_files st2) =
      Suc (length (scanned_files st) + length (skipped_files st) + length (error_files st))"
    using c1 same0 by (simp add: st2 merge_file_results_frame)
  have keys2: "set (map fst (compiled_patterns st2)) \<subseteq> set (map fst (patterns st2))"
    using keys0 scan_file_frame [OF sf] by (simp add: st2 merge_file_results_frame)
  have rest: "\<forall>p\<in>set fs. \<forall>s. is_text_file ev p \<longrightarrow> read_file_content ev s p \<noteq> ([], s)"
    using Cons.prems(1) by simp
  have nc': "\<not> scan_cancelled (run_tasks ev c (Suc k) fs st2)"
    using Cons.prems(3) unf nc1 by simp
  from Cons.IH [OF rest keys2 nc'] c2 unf nc1 show ?case by simp
qed

text \<open>
  Apart from text files with empty content, the bookkeeping is complete: a scan on a newly
  constructed object that is not cancelled, over files none of which is a text file
  reading as the empty string, ends with the three counters adding up to the total.
\<close>

lemma counters_add_up_without_empty_files:
  assumes "scan_directory ev c t0 t1 (fst (init ev pats)) d = (None, st')"
    and "\<not> scan_cancelled st'"
    and "\<forall>p\<in>set (get_all_files ev d). \<forall>s.
           is_text_file ev p \<longrightarrow> read_file_content ev s p \<noteq> ([], s)"
  shows "stat_scanned_files (stats st') + stat_skipped_files (stats st') +
     stat_error_files (stats st') = stat_total_files (stats st')"
proof -
  define st2 where "st2 = (fst (init ev pats))\<lparr>is_scanning := True, scan_cancelled := False,
      stats := (stats (fst (init ev pats)))\<lparr>stat_start_time := Some t0\<rparr>,
      stats := (stats (fst (init ev pats)))\<lparr>stat_start_time := Some t0,
                           stat_total_files := length (get_all_files ev d)\<rparr>\<rparr>"
  define st3 where "st3 = run_tasks ev c 0 (get_all_files ev d) st2"
  have st': "st' = st3\<lparr>stats := (stats st3)\<lparr>stat_scanned_files := length (scanned_files st3),
                                               stat_skipped_files := length (skipped_files st3),
                                               stat_error_files := length (error_files st3),
                                               stat_end_time := Some t1\<rparr>,
                         is_scanning := False\<rparr>"
    using assms(1)
    by (simp add: scan_directory_def Let_def st3_def st2_def split: if_splits)
  have nc: "\<not> scan_cancelled (run_tasks ev c 0 (get_all_files ev d) st2)"
    using assms(2) by (simp add: st' st3_def)
  have keys: "set (map fst (compiled_patterns st2)) \<subseteq> set (map fst (patterns st2))"
    using init_keys [of ev pats] by (simp add: st2_def)
  have empty: "length (scanned_files st2) + length (skipped_files st2) + length (error_files st2) = 0"
    using init_fresh [of ev pats] by (simp add: st2_def)
  from run_tasks_counts [OF assms(3) keys nc] empty
  have "length (scanned_files st3) + length (skipped_files st3) + length (error_files st3) =
      length (get_all_files ev d)"
    by (simp add: st3_def)
  moreover have "stat_total_files (stats st3) = length (get_all_files ev d)"
    by (simp add: st3_def run_tasks_total_files st2_def)
  ultimately show ?thesis by (simp add: st')
qed

text \<open>
  Claim C1. At the end of a scan that was not cancelled the three counters should add up
  to the number of files found. The early return of \<open>scan_file\<close> on empty content,
  meant for a failed read, also takes a text file that is read without error and is empty,
  and such a file is counted nowhere. The scan of the sample directory \<open>proj\<close> on a fresh
  object finds five files, is not cancelled, and ends with two scanned, one skipped and
  one error file.
\<close>

theorem empty_file_breaks_stats:
  "get_all_files sample_env ''proj'' =
     [''proj/a.txt'', ''proj/empty.txt'', ''proj/b.png'', ''proj/locked.txt'', ''proj/sub/notes''] \<and>
   fst (scan_directory sample_env (\<lambda>k. False) 1 2 sample_extractor ''proj'') = None \<and>
   \<not> scan_cancelled (snd (scan_directory sample_env (\<lambda>k. False) 1 2 sample_extractor ''proj'')) \<and>
   stat_total_files (stats (snd (scan_directory sample_env (\<lambda>k. False) 1 2 sample_extractor ''proj''))) = 5 \<and>
   stat_scanned_files (stats (snd (scan_directory sample_env (\<lambda>k. False) 1 2 sample_extractor ''proj''))) = 2 \<and>
   stat_skipped_files (stats (snd (scan_directory sample_env (\<lambda>k. False) 1 2 sample_extractor ''proj''))) = 1 \<and>
   stat_error_files (stats (snd (scan_directory sample_env (\<lambda>k. False) 1 2 sample_extractor ''proj''))) = 1"
  by code_simp

text \<open>
  Claim C2. Every file handled without cancellation should be recorded under exactly one
  of the outcomes skipped, errored, scanned, and a file that is text and is read without
  error should be recorded as scanned. The empty file of the sample directory is
  classified as text and read without error as the empty string, and \<open>scan_file\<close>
  returns with the object unchanged: the file is in none of the three lists.
\<close>

theorem empty_file_has_no_outcome:
  "\<not> scan_cancelled sample_extractor \<and>
   is_text_file sample_env ''proj/empty.txt'' \<and>
   read_text sample_env UTF8 ''proj/empty.txt'' = Returned [] \<and>
   scan_file sample_env sample_extractor ''proj/empty.txt'' = (Inr [], sample_extractor)"
proof -
  have nc: "\<not> scan_cancelled sample_extractor"
    by (simp add: sample_extractor_def init_def split: prod.splits)
  have tx: "is_text_file sample_env ''proj/empty.txt''"
    by (simp add: is_text_file_def sample_env_def sample_suffix_def binary_extensions_def
        text_extensions_def)
  have rd: "read_text sample_env UTF8 ''proj/empty.txt'' = Returned []"
    by (simp add: read_text_def decode_def sample_env_def sample_bytes_def
        sample_text_decode_def is_ascii_def)
  have "read_file_content sample_env sample_extractor ''proj/empty.txt'' = ([], sample_extractor)"
    by (simp add: read_file_content_def encodings_def rd)
  with nc tx have "scan_file sample_env sample_extractor ''proj/empty.txt'' = (Inr [], sample_extractor)"
    by (simp add: scan_file_def)
  with nc tx rd show ?thesis by simp
qed

end
